theory Spec2Isabelle
  imports Main
begin

section \<open>Text, numbers and dates of the host language\<close>

text \<open>
  The provider of \<^verbatim>\<open>src/gitBlameProvider.ts\<close> works on JavaScript strings. A string is
  modelled as a \<^typ>\<open>string\<close>, one \<^typ>\<open>char\<close> per code unit; code units above 255
  are outside the model. The classes below are the members of the regular expression
  classes \<^verbatim>\<open>\s\<close>, \<^verbatim>\<open>\S\<close>, \<^verbatim>\<open>.\<close>, \<^verbatim>\<open>[0-9]\<close>,
  \<^verbatim>\<open>[\^0-9a-fA-F]\<close> and \<^verbatim>\<open>[-|+]\<close> in that range.
\<close>

definition is_lineterm :: "char \<Rightarrow> bool" where
  "is_lineterm c = (c \<in> set [CHR 0x0A, CHR 0x0D])"

definition is_space :: "char \<Rightarrow> bool" where
  "is_space c = (c \<in> set [CHR 0x09, CHR 0x0A, CHR 0x0B, CHR 0x0C, CHR 0x0D, CHR 0x20, CHR 0xA0])"

definition is_nonspace :: "char \<Rightarrow> bool" where
  "is_nonspace c = (\<not> is_space c)"

definition is_dot :: "char \<Rightarrow> bool" where
  "is_dot c = (\<not> is_lineterm c)"

definition is_digit :: "char \<Rightarrow> bool" where
  "is_digit c = (c \<in> set ''0123456789'')"

definition is_digit_or_nonspace :: "char \<Rightarrow> bool" where
  "is_digit_or_nonspace c = (is_digit c \<or> is_nonspace c)"

definition is_hexcaret :: "char \<Rightarrow> bool" where
  "is_hexcaret c = (c \<in> set ''^0123456789abcdefABCDEF'')"

definition is_sign :: "char \<Rightarrow> bool" where
  "is_sign c = (c \<in> set ''-|+'')"

text \<open>\<^verbatim>\<open>String.prototype.trim\<close>: white space and line terminators go from both ends.\<close>

definition trim :: "string \<Rightarrow> string" where
  "trim s = rev (dropWhile is_space (rev (dropWhile is_space s)))"

text \<open>
  A JavaScript number as far as the provider computes with it: \<open>NaN\<close> or an integer.
  The integers are exact (the doubles of the source are, up to \<open>2 ^ 53\<close>).
\<close>

datatype jsnum = NaN | Num int

fun jsminus :: "jsnum \<Rightarrow> int \<Rightarrow> jsnum" where
  "jsminus NaN k = NaN"
| "jsminus (Num n) k = Num (n - k)"

definition digit_val :: "char \<Rightarrow> int" where
  "digit_val c = int (of_char c) - 48"

fun digits_val :: "int \<Rightarrow> string \<Rightarrow> int" where
  "digits_val acc [] = acc"
| "digits_val acc (c # cs) = digits_val (10 * acc + digit_val c) cs"

text \<open>
  \<^verbatim>\<open>parseInt(s, 10)\<close>: leading white space is skipped, one sign is read, then the longest
  run of decimal digits; no digit gives \<open>NaN\<close>.
\<close>

definition parseInt :: "string \<Rightarrow> jsnum" where
  "parseInt s =
     (let t = dropWhile is_space s;
          neg = (case t of [] \<Rightarrow> False | c # _ \<Rightarrow> c = CHR ''-'');
          u = (case t of [] \<Rightarrow> [] | c # cs \<Rightarrow> if c = CHR ''-'' \<or> c = CHR ''+'' then cs else t);
          ds = takeWhile is_digit u
      in if ds = [] then NaN
         else Num (if neg then - digits_val 0 ds else digits_val 0 ds))"

text \<open>\<^verbatim>\<open>new Date(text)\<close>: the date object, kept as the text it was built from.\<close>

datatype jsdate = NewDate string

section \<open>The attribution line pattern\<close>

text \<open>
  The regular expression \<^verbatim>\<open>blameMatcher\<close> is a sequence of the items below: anchors,
  the parentheses of a capture group, one character of a class, a class repeated a fixed
  number of times, and the greedy \<^verbatim>\<open>*\<close> and \<^verbatim>\<open>+\<close> of a class.
\<close>

datatype token =
    Bol
  | Eol
  | Open
  | Close
  | Chr char
  | Cls "char \<Rightarrow> bool"
  | Rep "char \<Rightarrow> bool" nat
  | Star "char \<Rightarrow> bool"
  | Plus "char \<Rightarrow> bool"

text \<open>
  The backtracking matcher. \<open>prev\<close> is the character before the current position (none at
  index 0), \<open>rest\<close> the text from the current position on, \<open>opened\<close> the positions of the
  groups still open and \<open>caps\<close> the text of the groups closed so far. A greedy repetition
  first takes one more character and only on failure of everything after it gives the
  character back, which is the order in which the source's engine tries its alternatives.
\<close>

fun rmatch :: "token list \<Rightarrow> char option \<Rightarrow> string \<Rightarrow> string list \<Rightarrow> string list
    \<Rightarrow> (string list \<times> string) option" where
  "rmatch [] prev rest opened caps = Some (caps, rest)"
| "rmatch (Bol # ts) prev rest opened caps =
     (if (case prev of None \<Rightarrow> True | Some c \<Rightarrow> is_lineterm c)
      then rmatch ts prev rest opened caps else None)"
| "rmatch (Eol # ts) prev rest opened caps =
     (if (case rest of [] \<Rightarrow> True | c # _ \<Rightarrow> is_lineterm c)
      then rmatch ts prev rest opened caps else None)"
| "rmatch (Open # ts) prev rest opened caps = rmatch ts prev rest (rest # opened) caps"
| "rmatch (Close # ts) prev rest [] caps = None"
| "rmatch (Close # ts) prev rest (st # opened) caps =
     rmatch ts prev rest opened (caps @ [take (length st - length rest) st])"
| "rmatch (Chr d # ts) prev [] opened caps = None"
| "rmatch (Chr d # ts) prev (c # cs) opened caps =
     (if c = d then rmatch ts (Some c) cs opened caps else None)"
| "rmatch (Cls p # ts) prev [] opened caps = None"
| "rmatch (Cls p # ts) prev (c # cs) opened caps =
     (if p c then rmatch ts (Some c) cs opened caps else None)"
| "rmatch (Rep p 0 # ts) prev rest opened caps = rmatch ts prev rest opened caps"
| "rmatch (Rep p (Suc n) # ts) prev [] opened caps = None"
| "rmatch (Rep p (Suc n) # ts) prev (c # cs) opened caps =
     (if p c then rmatch (Rep p n # ts) (Some c) cs opened caps else None)"
| "rmatch (Star p # ts) prev [] opened caps = rmatch ts prev [] opened caps"
| "rmatch (Star p # ts) prev (c # cs) opened caps =
     (if p c
      then (case rmatch (Star p # ts) (Some c) cs opened caps of
              Some r \<Rightarrow> Some r
            | None \<Rightarrow> rmatch ts prev (c # cs) opened caps)
      else rmatch ts prev (c # cs) opened caps)"
| "rmatch (Plus p # ts) prev [] opened caps = None"
| "rmatch (Plus p # ts) prev (c # cs) opened caps =
     (if p c then rmatch (Star p # ts) (Some c) cs opened caps else None)"

text \<open>
  \<^verbatim>\<open>/^([\^0-9a-fA-F]{8})\s([\S]*)\s+([0-9\S]+)\s\((.*)\s([0-9]{4}-[0-9]{2}-[0-9]{2}\s[0-9]{2}:[0-9]{2}:[0-9]{2}\s[-|+][0-9]{4})\s+([0-9]+)\)(.*)$/gm\<close>
\<close>

definition blameMatcher :: "token list" where
  "blameMatcher =
     [Bol,
      Open, Rep is_hexcaret 8, Close,
      Cls is_space,
      Open, Star is_nonspace, Close,
      Plus is_space,
      Open, Plus is_digit_or_nonspace, Close,
      Cls is_space, Chr (CHR ''(''),
      Open, Star is_dot, Close,
      Cls is_space,
      Open, Rep is_digit 4, Chr (CHR ''-''), Rep is_digit 2, Chr (CHR ''-''), Rep is_digit 2,
            Cls is_space,
            Rep is_digit 2, Chr (CHR '':''), Rep is_digit 2, Chr (CHR '':''), Rep is_digit 2,
            Cls is_space,
            Cls is_sign, Rep is_digit 4, Close,
      Plus is_space,
      Open, Plus is_digit, Close,
      Chr (CHR '')''),
      Open, Star is_dot, Close,
      Eol]"

text \<open>
  One attempt of the pattern at index \<open>i\<close> of \<open>data\<close>: the match array (the whole match
  at index 0, the seven groups after it) and the index where the match ends.
\<close>

definition matchAt :: "string \<Rightarrow> nat \<Rightarrow> (string list \<times> nat) option" where
  "matchAt data i =
     (case rmatch blameMatcher (if i = 0 then None else Some (data ! (i - 1))) (drop i data) [] [] of
        None \<Rightarrow> None
      | Some (caps, rest) \<Rightarrow>
          Some (take (length data - i - length rest) (drop i data) # caps,
                length data - length rest))"

text \<open>
  \<^verbatim>\<open>blameMatcher.exec(data)\<close> with the flag \<^verbatim>\<open>g\<close>: the search starts at \<open>lastIndex\<close>
  and takes the first index at which the pattern matches; the result carries the new
  \<open>lastIndex\<close>. No match is \<open>None\<close> (the source's \<^verbatim>\<open>null\<close>, with \<open>lastIndex\<close> back at 0).
\<close>

function exec :: "string \<Rightarrow> nat \<Rightarrow> (string list \<times> nat) option" where
  "exec data lastIndex =
     (if length data < lastIndex then None
      else (case matchAt data lastIndex of
              Some r \<Rightarrow> Some r
            | None \<Rightarrow> exec data (Suc lastIndex)))"
  by pat_completeness auto
termination
  by (relation "measure (\<lambda>(data, lastIndex). Suc (length data) - lastIndex)") auto

declare exec.simps [simp del]

lemma rmatch_suffix:
  "rmatch ts prev rest opened caps = Some (caps', rest') \<Longrightarrow> length rest' \<le> length rest"
proof (induction ts prev rest opened caps rule: rmatch.induct)
  case (15 p ts prev c cs opened caps)
  then show ?case
    by (cases "p c"; cases "rmatch (Star p # ts) (Some c) cs opened caps") (auto split: if_splits)
qed (auto split: if_splits)

lemma matchAt_advances:
  assumes "matchAt data i = Some (m, e)"
  shows "i < e \<and> e \<le> length data"
proof -
  obtain caps rest where r: "rmatch blameMatcher (if i = 0 then None else Some (data ! (i - 1)))
      (drop i data) [] [] = Some (caps, rest)" and e: "e = length data - length rest"
    using assms by (auto simp: matchAt_def split: option.splits)
  let ?tl = "tl (tl (tl blameMatcher))"
  obtain c cs where d: "drop i data = c # cs"
    using r by (cases "drop i data") (auto simp: blameMatcher_def eval_nat_numeral split: if_splits)
  have "\<exists>prev' opened'. rmatch (Rep is_hexcaret 7 # ?tl) prev' cs opened' [] = Some (caps, rest)"
    using r d by (auto simp: blameMatcher_def eval_nat_numeral split: if_splits)
  then have "length rest \<le> length cs"
    using rmatch_suffix by blast
  moreover have "length (drop i data) = Suc (length cs)"
    using d by simp
  ultimately show ?thesis
    using e by auto
qed

lemma exec_advances:
  "exec data i = Some (m, e) \<Longrightarrow> i < e \<and> e \<le> length data"
proof (induction data i rule: exec.induct)
  case (1 data lastIndex)
  show ?case
  proof (cases "matchAt data lastIndex")
    case None
    with 1 show ?thesis
      by (subst (asm) (2) exec.simps) (auto split: if_splits)
  next
    case (Some r)
    with 1 show ?thesis
      by (subst (asm) (2) exec.simps) (auto split: if_splits dest: matchAt_advances)
  qed
qed


section \<open>Maps and arrays of the host language\<close>

text \<open>
  A JavaScript \<^verbatim>\<open>Map\<close> keeps its keys in insertion order and can hold the value
  \<^verbatim>\<open>undefined\<close>; it is an association list with distinct keys whose values are options,
  \<open>None\<close> being \<^verbatim>\<open>undefined\<close>. \<^verbatim>\<open>get\<close> answers \<^verbatim>\<open>undefined\<close> for a missing key too.
\<close>

type_synonym ('k, 'v) jsmap = "('k \<times> 'v option) list"

definition Map_has :: "('k, 'v) jsmap \<Rightarrow> 'k \<Rightarrow> bool" where
  "Map_has m k = (k \<in> set (map fst m))"

definition Map_get :: "('k, 'v) jsmap \<Rightarrow> 'k \<Rightarrow> 'v option" where
  "Map_get m k = (case map_of m k of None \<Rightarrow> None | Some v \<Rightarrow> v)"

fun Map_set :: "('k, 'v) jsmap \<Rightarrow> 'k \<Rightarrow> 'v option \<Rightarrow> ('k, 'v) jsmap" where
  "Map_set [] k v = [(k, v)]"
| "Map_set ((k', v') # m) k v = (if k' = k then (k, v) # m else (k', v') # Map_set m k v)"

definition Map_delete :: "('k, 'v) jsmap \<Rightarrow> 'k \<Rightarrow> ('k, 'v) jsmap" where
  "Map_delete m k = filter (\<lambda>kv. fst kv \<noteq> k) m"

text \<open>
  \<^verbatim>\<open>Array.prototype.slice(start, end)\<close>: a negative index counts from the end, both are
  clamped to the array, and an empty interval gives the empty array.
\<close>

definition slice :: "'a list \<Rightarrow> int \<Rightarrow> int \<Rightarrow> 'a list" where
  "slice xs start fin =
     (let len = int (length xs);
          k = (if start < 0 then max (len + start) 0 else min start len);
          final = (if fin < 0 then max (len + fin) 0 else min fin len)
      in take (nat (final - k)) (drop (nat k) xs))"

text \<open>
  \<^verbatim>\<open>_.uniqBy(array, key)\<close> of lodash: the elements in order, without those whose key an
  earlier element already had.
\<close>

fun baseUniq :: "('a \<Rightarrow> 'k) \<Rightarrow> 'k list \<Rightarrow> 'a list \<Rightarrow> 'a list" where
  "baseUniq f seen [] = []"
| "baseUniq f seen (x # xs) =
     (if f x \<in> set seen then baseUniq f seen xs else x # baseUniq f (f x # seen) xs)"

definition uniqBy :: "'a list \<Rightarrow> ('a \<Rightarrow> 'k) \<Rightarrow> 'a list" where
  "uniqBy xs f = baseUniq f [] xs"

section \<open>The data model\<close>

text \<open>
  The interfaces at the end of the source file. The fields of \<^verbatim>\<open>IGitBlameCommit\<close>,
  \<^verbatim>\<open>IGitBlameLine\<close> and \<^verbatim>\<open>IGitBlameUriData\<close> share names in the source; here they carry
  the prefixes \<open>c_\<close>, \<open>l_\<close> and \<open>u_\<close> (and \<open>sr_\<close> in the result of \<^verbatim>\<open>getBlameForShaRange\<close>).
\<close>

record IGitBlameCommit =
  c_sha :: string
  c_fileName :: string
  c_author :: string
  c_date :: jsdate

record IGitBlameLine =
  l_sha :: string
  l_originalLine :: jsnum
  l_line :: jsnum

record IGitBlame =
  commits :: "(string, IGitBlameCommit) jsmap"
  lines :: "IGitBlameLine list"

text \<open>
  The host editor's \<^verbatim>\<open>Position\<close> and \<^verbatim>\<open>Range\<close>: lines and characters are never
  negative (the host's constructor refuses a negative one).
\<close>

record Position =
  line :: nat
  character :: nat

record Range =
  r_start :: Position
  r_end :: Position

section \<open>Parsing the attribution text\<close>

text \<open>
  The body of the callback of \<^verbatim>\<open>blameFile\<close>: the loop
  \<^verbatim>\<open>while ((m = blameMatcher.exec(data)) != null)\<close> with its two accumulators. Every run
  of the loop ends with an \<^verbatim>\<open>exec\<close> that found nothing, which leaves \<open>lastIndex\<close> at 0
  for the next run.
\<close>

function blameLoop :: "string \<Rightarrow> nat \<Rightarrow> (string, IGitBlameCommit) jsmap \<Rightarrow> IGitBlameLine list
    \<Rightarrow> IGitBlame" where
  "blameLoop data lastIndex cmap larr =
     (case exec data lastIndex of
        None \<Rightarrow> \<lparr>commits = cmap, lines = larr\<rparr>
      | Some (m, lastIndex') \<Rightarrow>
          (let sha = m ! 1;
               cmap' = (if \<not> Map_has cmap sha
                        then Map_set cmap sha
                               (Some \<lparr>c_sha = sha, c_fileName = trim (m ! 2),
                                      c_author = trim (m ! 4), c_date = NewDate (m ! 5)\<rparr>)
                        else cmap);
               larr' = larr @ [\<lparr>l_sha = sha,
                                 l_originalLine = jsminus (parseInt (m ! 3)) 1,
                                 l_line = jsminus (parseInt (m ! 6)) 1\<rparr>]
           in blameLoop data lastIndex' cmap' larr'))"
  by pat_completeness auto
termination
  by (relation "measure (\<lambda>(data, lastIndex, cmap, larr). Suc (length data) - lastIndex)")
     (auto dest: exec_advances)

declare blameLoop.simps [simp del]

definition parseBlame :: "string \<Rightarrow> IGitBlame" where
  "parseBlame data = blameLoop data 0 [] []"

text \<open>
  The matches of the pattern in \<open>data\<close> from \<open>lastIndex\<close> on, in the order in which
  successive calls of \<^verbatim>\<open>exec\<close> report them; each is a match array.
\<close>

function execAll :: "string \<Rightarrow> nat \<Rightarrow> string list list" where
  "execAll data lastIndex =
     (case exec data lastIndex of
        None \<Rightarrow> []
      | Some (m, lastIndex') \<Rightarrow> m # execAll data lastIndex')"
  by pat_completeness auto
termination
  by (relation "measure (\<lambda>(data, lastIndex). Suc (length data) - lastIndex)")
     (auto dest: exec_advances)

declare execAll.simps [simp del]

text \<open>What one match array contributes: its commit record and its line record.\<close>

definition commit_of_match :: "string list \<Rightarrow> IGitBlameCommit" where
  "commit_of_match m =
     \<lparr>c_sha = m ! 1, c_fileName = trim (m ! 2), c_author = trim (m ! 4), c_date = NewDate (m ! 5)\<rparr>"

definition line_of_match :: "string list \<Rightarrow> IGitBlameLine" where
  "line_of_match m =
     \<lparr>l_sha = m ! 1, l_originalLine = jsminus (parseInt (m ! 3)) 1,
      l_line = jsminus (parseInt (m ! 6)) 1\<rparr>"

text \<open>A list without the later repetitions of its elements.\<close>

definition first_occurrences :: "'a list \<Rightarrow> 'a list" where
  "first_occurrences xs = rev (remdups (rev xs))"


section \<open>The provider and its cache\<close>

text \<open>
  A promise of a blame result is pending, fulfilled with the result, or rejected with the
  collaborator's error. The provider's world holds the cache \<^verbatim>\<open>_files\<close> (file name to
  promise; a promise is a reference into \<open>promises\<close>), the promises made so far, the
  calls of the external collaborator \<^verbatim>\<open>gitBlame\<close> so far, and whether the two
  subscriptions of the constructor are still in place.
\<close>

datatype 'a pstate = Pending | Fulfilled 'a | Rejected string

record world =
  files :: "(string, nat) jsmap"
  promises :: "IGitBlame pstate list"
  gitBlameCalls :: "string list"
  subscriptions :: bool

text \<open>The constructor: an empty cache and the two subscriptions.\<close>

definition constructor :: world where
  "constructor = \<lparr>files = [], promises = [], gitBlameCalls = [], subscriptions = True\<rparr>"

text \<open>
  \<^verbatim>\<open>blameFile\<close>: a cached promise is returned as it is; otherwise the collaborator is
  called, the promise \<^verbatim>\<open>gitBlame(fileName).then(...)\<close> is made (pending), stored and
  returned.
\<close>

definition blameFile :: "string \<Rightarrow> world \<Rightarrow> nat \<times> world" where
  "blameFile fileName w =
     (case Map_get (files w) fileName of
        Some blame \<Rightarrow> (blame, w)
      | None \<Rightarrow>
          (let blame = length (promises w);
               w' = w\<lparr>gitBlameCalls := gitBlameCalls w @ [fileName],
                       promises := promises w @ [Pending]\<rparr>
           in (blame, w'\<lparr>files := Map_set (files w') fileName (Some blame)\<rparr>)))"

text \<open>
  The collaborator's answer to the call behind promise \<open>p\<close>: its text (\<open>Inr\<close>) runs
  through the callback and fulfils the promise, its failure (\<open>Inl\<close>) rejects it, since the
  source attaches no handler for it. A promise settles once.
\<close>

definition gitBlame_settles :: "nat \<Rightarrow> string + string \<Rightarrow> world \<Rightarrow> world" where
  "gitBlame_settles p outcome w =
     (if p < length (promises w) \<and> promises w ! p = Pending
      then w\<lparr>promises := (promises w)
                [p := (case outcome of Inl ex \<Rightarrow> Rejected ex | Inr data \<Rightarrow> Fulfilled (parseBlame data))]\<rparr>
      else w)"

text \<open>What someone who holds promise \<open>p\<close> finds when awaiting it in world \<open>w\<close>.\<close>

definition await :: "world \<Rightarrow> nat \<Rightarrow> IGitBlame pstate" where
  "await w p = promises w ! p"

text \<open>
  The promise \<^verbatim>\<open>this.blameFile(fileName).then(callback)\<close>: it follows the promise it was
  chained to, with the callback applied to a fulfilled value.
\<close>

datatype 'a chained = Then nat "IGitBlame \<Rightarrow> 'a"

fun await_chained :: "world \<Rightarrow> 'a chained \<Rightarrow> 'a pstate" where
  "await_chained w (Then p callback) =
     (case await w p of
        Pending \<Rightarrow> Pending
      | Fulfilled blame \<Rightarrow> Fulfilled (callback blame)
      | Rejected ex \<Rightarrow> Rejected ex)"

text \<open>
  \<^verbatim>\<open>getBlameForRange\<close>: the promise of \<^verbatim>\<open>blameFile\<close> with a callback chained to it.
  The callback returns a result without line records as it is; otherwise it slices the
  line records from the start line of the range to its end line plus one and fills a new
  map, for each hash of the slice once, with what the full commit map gives for it.
\<close>

definition getBlameForRange_callback :: "Range \<Rightarrow> IGitBlame \<Rightarrow> IGitBlame" where
  "getBlameForRange_callback rng blame =
     (if length (lines blame) = 0 then blame
      else
        (let larr = slice (lines blame) (int (line (r_start rng))) (int (line (r_end rng)) + 1);
             cmap = fold (\<lambda>l cmap. Map_set cmap (l_sha l) (Map_get (commits blame) (l_sha l)))
                      (uniqBy larr l_sha) []
         in \<lparr>commits = cmap, lines = larr\<rparr>))"

definition getBlameForRange :: "string \<Rightarrow> Range \<Rightarrow> world \<Rightarrow> IGitBlame chained \<times> world" where
  "getBlameForRange fileName rng w =
     (case blameFile fileName w of (p, w') \<Rightarrow> (Then p (getBlameForRange_callback rng), w'))"

text \<open>
  \<^verbatim>\<open>getBlameForShaRange\<close>: the same slice, filtered by the hash, next to what the commit
  map gives for the hash.
\<close>

record ShaRange =
  sr_commit :: "IGitBlameCommit option"
  sr_lines :: "IGitBlameLine list"

definition getBlameForShaRange_callback :: "string \<Rightarrow> Range \<Rightarrow> IGitBlame \<Rightarrow> ShaRange" where
  "getBlameForShaRange_callback sha rng blame =
     \<lparr>sr_commit = Map_get (commits blame) sha,
      sr_lines = filter (\<lambda>l. l_sha l = sha)
                   (slice (lines blame) (int (line (r_start rng))) (int (line (r_end rng)) + 1))\<rparr>"

definition getBlameForShaRange :: "string \<Rightarrow> string \<Rightarrow> Range \<Rightarrow> world \<Rightarrow> ShaRange chained \<times> world" where
  "getBlameForShaRange fileName sha rng w =
     (case blameFile fileName w of (p, w') \<Rightarrow> (Then p (getBlameForShaRange_callback sha rng), w'))"

text \<open>
  \<^verbatim>\<open>_removeFile\<close> deletes the entry of a file; \<^verbatim>\<open>dispose\<close> clears the cache and
  disposes of the subscriptions.
\<close>

definition removeFile :: "string \<Rightarrow> world \<Rightarrow> world" where
  "removeFile fileName w = w\<lparr>files := Map_delete (files w) fileName\<rparr>"

definition dispose :: "world \<Rightarrow> world" where
  "dispose w = w\<lparr>files := [], subscriptions := False\<rparr>"

text \<open>
  The host's notifications, as the constructor subscribed to them: a closed document and
  a changed document each remove the cache entry of the document's file. A disposed
  subscription is no longer notified.
\<close>

record TextDocument =
  fileName :: string

record TextDocumentChangeEvent =
  document :: TextDocument

definition onDidCloseTextDocument :: "TextDocument \<Rightarrow> world \<Rightarrow> world" where
  "onDidCloseTextDocument d w = (if subscriptions w then removeFile (fileName d) w else w)"

definition onDidChangeTextDocument :: "TextDocumentChangeEvent \<Rightarrow> world \<Rightarrow> world" where
  "onDidChangeTextDocument e w = (if subscriptions w then removeFile (fileName (document e)) w else w)"

text \<open>
  Everything that can happen to a provider between two moments: calls of its methods,
  notifications of the host, answers of the collaborator.
\<close>

datatype event =
    CallBlameFile string
  | CallGetBlameForRange string Range
  | CallGetBlameForShaRange string string Range
  | DocumentClosed TextDocument
  | DocumentChanged TextDocumentChangeEvent
  | Settles nat "string + string"
  | Dispose

fun step :: "event \<Rightarrow> world \<Rightarrow> world" where
  "step (CallBlameFile f) w = snd (blameFile f w)"
| "step (CallGetBlameForRange f r) w = snd (getBlameForRange f r w)"
| "step (CallGetBlameForShaRange f h r) w = snd (getBlameForShaRange f h r w)"
| "step (DocumentClosed d) w = onDidCloseTextDocument d w"
| "step (DocumentChanged e) w = onDidChangeTextDocument e w"
| "step (Settles p outcome) w = gitBlame_settles p outcome w"
| "step Dispose w = dispose w"

definition run :: "event list \<Rightarrow> world \<Rightarrow> world" where
  "run evs w = fold step evs w"

text \<open>The events that take the cache entry of file \<open>f\<close> away.\<close>

fun invalidates :: "string \<Rightarrow> event \<Rightarrow> bool" where
  "invalidates f (DocumentClosed d) = (fileName d = f)"
| "invalidates f (DocumentChanged e) = (fileName (document e) = f)"
| "invalidates f Dispose = True"
| "invalidates f _ = False"


section \<open>JSON\<close>

text \<open>
  The values \<^verbatim>\<open>JSON.parse\<close> can return. Numbers are integers here; a number with a
  fraction or an exponent is outside the model. What the functions below can fail with is
  a \<open>jserror\<close>: the exceptions of the source, and two marks of this model
  (\<open>OutsideModel\<close> for a value the model has no type for, \<open>OutOfFuel\<close> for a parser that
  was given too little fuel).
\<close>

datatype json =
    JNull
  | JBool bool
  | JNumber int
  | JString string
  | JArray "json list"
  | JObject "(string \<times> json) list"

datatype jserror = SyntaxError | TypeError | IllegalArgument | URIError | OutsideModel | OutOfFuel

text \<open>
  A number as text (\<^verbatim>\<open>"" + n\<close>, and a number in \<^verbatim>\<open>JSON.stringify\<close>), and a string
  in quotes with the escapes of \<^verbatim>\<open>JSON.stringify\<close>.
\<close>

fun show_nat :: "nat \<Rightarrow> string" where
  "show_nat n = (if n < 10 then [char_of (48 + n)] else show_nat (n div 10) @ [char_of (48 + n mod 10)])"

declare show_nat.simps [simp del]

definition show_int :: "int \<Rightarrow> string" where
  "show_int i = (if i < 0 then CHR ''-'' # show_nat (nat (- i)) else show_nat (nat i))"

definition hex_digit :: "nat \<Rightarrow> char" where
  "hex_digit n = (''0123456789abcdef'') ! n"

definition quote_char :: "char \<Rightarrow> string" where
  "quote_char c =
     (if c = CHR 0x22 then [CHR 0x5C, CHR 0x22]
      else if c = CHR 0x5C then [CHR 0x5C, CHR 0x5C]
      else if c = CHR 0x08 then [CHR 0x5C, CHR ''b'']
      else if c = CHR 0x0C then [CHR 0x5C, CHR ''f'']
      else if c = CHR 0x0A then [CHR 0x5C, CHR ''n'']
      else if c = CHR 0x0D then [CHR 0x5C, CHR ''r'']
      else if c = CHR 0x09 then [CHR 0x5C, CHR ''t'']
      else if (of_char c :: nat) < 32
        then [CHR 0x5C, CHR ''u'', CHR ''0'', CHR ''0'', hex_digit (of_char c div 16), hex_digit (of_char c mod 16)]
      else [c])"

definition quote :: "string \<Rightarrow> string" where
  "quote s = CHR 0x22 # concat (map quote_char s) @ [CHR 0x22]"

text \<open>
  \<^verbatim>\<open>JSON.stringify\<close> without indentation: members and elements in order, separated by
  commas.
\<close>

fun commas :: "string list \<Rightarrow> string" where
  "commas [] = []"
| "commas [x] = x"
| "commas (x # y # ys) = x @ CHR '','' # commas (y # ys)"

fun JSON_stringify :: "json \<Rightarrow> string" where
  "JSON_stringify JNull = ''null''"
| "JSON_stringify (JBool b) = (if b then ''true'' else ''false'')"
| "JSON_stringify (JNumber i) = show_int i"
| "JSON_stringify (JString s) = quote s"
| "JSON_stringify (JArray xs) = CHR ''['' # commas (map JSON_stringify xs) @ '']''"
| "JSON_stringify (JObject ms) =
     CHR ''{'' # commas (map (\<lambda>(k, v). quote k @ CHR '':'' # JSON_stringify v) ms) @ ''}''"

text \<open>
  \<^verbatim>\<open>JSON.parse\<close>: a recursive descent over the text. \<open>parse_chars\<close> reads a string after
  its opening quote; the three mutually recursive parsers read a value, the rest of an
  array and the rest of an object, each call with one unit of fuel less; \<^verbatim>\<open>JSON.parse\<close>
  starts with one more than twice the length of the text, which is enough for every text
  (\<open>JSON_parse_fuel\<close> below). A text that is not one JSON value with white space around
  it is a \<open>SyntaxError\<close>.
\<close>

definition is_json_ws :: "char \<Rightarrow> bool" where
  "is_json_ws c = (c \<in> set [CHR 0x20, CHR 0x09, CHR 0x0A, CHR 0x0D])"

definition hex_val :: "char \<Rightarrow> nat option" where
  "hex_val c =
     (if is_digit c then Some (of_char c - 48)
      else if c \<in> set ''abcdef'' then Some (of_char c - 87)
      else if c \<in> set ''ABCDEF'' then Some (of_char c - 55)
      else None)"

definition unescape :: "string \<Rightarrow> jserror + char \<times> string" where
  "unescape cs =
     (case cs of
        [] \<Rightarrow> Inl SyntaxError
      | e # r \<Rightarrow>
          if e = CHR 0x22 \<or> e = CHR 0x5C \<or> e = CHR ''/'' then Inr (e, r)
          else if e = CHR ''b'' then Inr (CHR 0x08, r)
          else if e = CHR ''f'' then Inr (CHR 0x0C, r)
          else if e = CHR ''n'' then Inr (CHR 0x0A, r)
          else if e = CHR ''r'' then Inr (CHR 0x0D, r)
          else if e = CHR ''t'' then Inr (CHR 0x09, r)
          else if e = CHR ''u'' then
            (case r of
               h1 # h2 # h3 # h4 # r' \<Rightarrow>
                 (case (hex_val h1, hex_val h2, hex_val h3, hex_val h4) of
                    (Some a, Some b, Some c, Some d) \<Rightarrow>
                      if a = 0 \<and> b = 0 then Inr (char_of (16 * c + d), r') else Inl OutsideModel
                  | _ \<Rightarrow> Inl SyntaxError)
             | _ \<Rightarrow> Inl SyntaxError)
          else Inl SyntaxError)"

lemma unescape_shorter: "unescape cs = Inr (d, r) \<Longrightarrow> length r < length cs"
  unfolding unescape_def
  by (auto split: list.splits if_splits option.splits)

function parse_chars :: "string \<Rightarrow> string \<Rightarrow> jserror + string \<times> string" where
  "parse_chars acc [] = Inl SyntaxError"
| "parse_chars acc (c # cs) =
     (if c = CHR 0x22 then Inr (acc, cs)
      else if (of_char c :: nat) < 32 then Inl SyntaxError
      else if c \<noteq> CHR 0x5C then parse_chars (acc @ [c]) cs
      else (case unescape cs of
              Inl e \<Rightarrow> Inl e
            | Inr (d, r) \<Rightarrow> parse_chars (acc @ [d]) r))"
  by pat_completeness auto
termination
  by (relation "measure (\<lambda>(acc, s). length s)") (auto dest: unescape_shorter)

definition parse_number :: "string \<Rightarrow> jserror + json \<times> string" where
  "parse_number s =
     (let neg = (case s of [] \<Rightarrow> False | c # _ \<Rightarrow> c = CHR ''-'');
          u = (if neg then tl s else s);
          ds = takeWhile is_digit u;
          rest = dropWhile is_digit u
      in if ds = [] \<or> (length ds > 1 \<and> hd ds = CHR ''0'') then Inl SyntaxError
         else if (case rest of [] \<Rightarrow> False | c # _ \<Rightarrow> c \<in> set ''.eE'') then Inl OutsideModel
         else Inr (JNumber (if neg then - digits_val 0 ds else digits_val 0 ds), rest))"

definition literal :: "string \<Rightarrow> json \<Rightarrow> string \<Rightarrow> jserror + json \<times> string" where
  "literal w v s = (if take (length w) s = w then Inr (v, drop (length w) s) else Inl SyntaxError)"

fun parse_value :: "nat \<Rightarrow> string \<Rightarrow> jserror + json \<times> string"
  and parse_elements :: "nat \<Rightarrow> json list \<Rightarrow> string \<Rightarrow> jserror + json \<times> string"
  and parse_members :: "nat \<Rightarrow> (string \<times> json) list \<Rightarrow> string \<Rightarrow> jserror + json \<times> string" where
  "parse_value 0 s = Inl OutOfFuel"
| "parse_value (Suc n) s =
     (case dropWhile is_json_ws s of
        [] \<Rightarrow> Inl SyntaxError
      | c # cs \<Rightarrow>
          if c = CHR ''{'' then
            (case dropWhile is_json_ws cs of
               [] \<Rightarrow> Inl SyntaxError
             | d # ds \<Rightarrow> if d = CHR ''}'' then Inr (JObject [], ds) else parse_members n [] (d # ds))
          else if c = CHR ''['' then
            (case dropWhile is_json_ws cs of
               [] \<Rightarrow> Inl SyntaxError
             | d # ds \<Rightarrow> if d = CHR '']'' then Inr (JArray [], ds) else parse_elements n [] (d # ds))
          else if c = CHR 0x22 then
            (case parse_chars [] cs of Inl e \<Rightarrow> Inl e | Inr (str, r) \<Rightarrow> Inr (JString str, r))
          else if c = CHR ''t'' then literal ''true'' (JBool True) (c # cs)
          else if c = CHR ''f'' then literal ''false'' (JBool False) (c # cs)
          else if c = CHR ''n'' then literal ''null'' JNull (c # cs)
          else parse_number (c # cs))"
| "parse_elements 0 acc s = Inl OutOfFuel"
| "parse_elements (Suc n) acc s =
     (case parse_value n s of
        Inl e \<Rightarrow> Inl e
      | Inr (v, r) \<Rightarrow>
          (case dropWhile is_json_ws r of
             [] \<Rightarrow> Inl SyntaxError
           | c # cs \<Rightarrow>
               if c = CHR '']'' then Inr (JArray (acc @ [v]), cs)
               else if c = CHR '','' then parse_elements n (acc @ [v]) cs
               else Inl SyntaxError))"
| "parse_members 0 acc s = Inl OutOfFuel"
| "parse_members (Suc n) acc s =
     (case dropWhile is_json_ws s of
        [] \<Rightarrow> Inl SyntaxError
      | q # ks \<Rightarrow>
          if q \<noteq> CHR 0x22 then Inl SyntaxError
          else
            (case parse_chars [] ks of
               Inl e \<Rightarrow> Inl e
             | Inr (k, r) \<Rightarrow>
                 (case dropWhile is_json_ws r of
                    [] \<Rightarrow> Inl SyntaxError
                  | c # cs \<Rightarrow>
                      if c \<noteq> CHR '':'' then Inl SyntaxError
                      else
                        (case parse_value n cs of
                           Inl e \<Rightarrow> Inl e
                         | Inr (v, r') \<Rightarrow>
                             (case dropWhile is_json_ws r' of
                                [] \<Rightarrow> Inl SyntaxError
                              | d # ds \<Rightarrow>
                                  if d = CHR ''}'' then Inr (JObject (acc @ [(k, v)]), ds)
                                  else if d = CHR '','' then parse_members n (acc @ [(k, v)]) ds
                                  else Inl SyntaxError)))))"

definition JSON_parse :: "string \<Rightarrow> jserror + json" where
  "JSON_parse s =
     (case parse_value (Suc (2 * length s)) s of
        Inl e \<Rightarrow> Inl e
      | Inr (v, r) \<Rightarrow> if dropWhile is_json_ws r = [] then Inr v else Inl SyntaxError)"

section \<open>The host: resource identifiers, paths, dates\<close>

text \<open>
  A resource identifier of the host editor has five components. What the provider takes
  from its surroundings without defining it is gathered in a \<open>host\<close>: the scheme
  \<^verbatim>\<open>DocumentSchemes.GitBlame\<close>, the four functions of the platform's path module, the
  date formatting of \<^verbatim>\<open>moment\<close>, and the percent-decoding the host applies to the
  components of an identifier it parses (\<open>None\<close> when it throws).
\<close>

record Uri =
  scheme :: string
  authority :: string
  path :: string
  query :: string
  fragment :: string

record host =
  GitBlame :: string
  extname :: "string \<Rightarrow> string"
  dirname :: "string \<Rightarrow> string"
  basename :: "string \<Rightarrow> string \<Rightarrow> string"
  join :: "string \<Rightarrow> string \<Rightarrow> string"
  moment_format :: "jsdate \<Rightarrow> string \<Rightarrow> string"
  decodeURIComponent :: "string \<Rightarrow> string option"

text \<open>
  Sequencing of steps that can throw.
\<close>

definition bindE :: "jserror + 'a \<Rightarrow> ('a \<Rightarrow> jserror + 'b) \<Rightarrow> jserror + 'b" where
  "bindE x f = (case x of Inl e \<Rightarrow> Inl e | Inr v \<Rightarrow> f v)"

text \<open>
  \<^verbatim>\<open>Uri.parse\<close>: the split of a text into components is that of RFC 3986, appendix B,
  \<^verbatim>\<open>^(([^:/?#]+?):)?(\/\/([^/?#]*))?([^?#]*)(\?([^#]*))?(#(.*))?\<close>: the path ends at the first
  \<^verbatim>\<open>?\<close> or \<^verbatim>\<open>#\<close>, the query is what stands between a \<^verbatim>\<open>?\<close> there and the next
  \<^verbatim>\<open>#\<close>, the fragment is what follows that \<^verbatim>\<open>#\<close>. Authority, path, query and
  fragment are then percent-decoded.
\<close>

definition Uri_components :: "string \<Rightarrow> Uri" where
  "Uri_components v =
     (let run = takeWhile (\<lambda>c. c \<notin> set '':/?#'') v;
          after = dropWhile (\<lambda>c. c \<notin> set '':/?#'') v;
          has_scheme = (run \<noteq> [] \<and> (case after of [] \<Rightarrow> False | c # _ \<Rightarrow> c = CHR '':''));
          r1 = (if has_scheme then tl after else v);
          has_authority = (take 2 r1 = ''//'');
          r2 = (if has_authority then dropWhile (\<lambda>c. c \<notin> set ''/?#'') (drop 2 r1) else r1);
          r3 = dropWhile (\<lambda>c. c \<notin> set ''?#'') r2;
          has_query = (case r3 of [] \<Rightarrow> False | c # _ \<Rightarrow> c = CHR ''?'');
          r4 = (if has_query then dropWhile (\<lambda>c. c \<noteq> CHR ''#'') (tl r3) else r3)
      in \<lparr>scheme = (if has_scheme then run else []),
          authority = (if has_authority then takeWhile (\<lambda>c. c \<notin> set ''/?#'') (drop 2 r1) else []),
          path = takeWhile (\<lambda>c. c \<notin> set ''?#'') r2,
          query = (if has_query then takeWhile (\<lambda>c. c \<noteq> CHR ''#'') (tl r3) else []),
          fragment = (case r4 of [] \<Rightarrow> [] | c # cs \<Rightarrow> takeWhile is_dot cs)\<rparr>)"

definition decoded :: "host \<Rightarrow> string \<Rightarrow> jserror + string" where
  "decoded h s = (case decodeURIComponent h s of None \<Rightarrow> Inl URIError | Some t \<Rightarrow> Inr t)"

definition Uri_parse :: "host \<Rightarrow> string \<Rightarrow> jserror + Uri" where
  "Uri_parse h v =
     (let d = Uri_components v
      in bindE (decoded h (authority d)) (\<lambda>a.
         bindE (decoded h (path d)) (\<lambda>p.
         bindE (decoded h (query d)) (\<lambda>q.
         bindE (decoded h (fragment d)) (\<lambda>f.
         Inr \<lparr>scheme = scheme d, authority = a, path = p, query = q, fragment = f\<rparr>)))))"

section \<open>Resource identifiers of a blame\<close>

text \<open>
  \<^verbatim>\<open>IGitBlameUriData\<close>, and how \<^verbatim>\<open>JSON.stringify\<close> sees it: the members in the order
  in which \<^verbatim>\<open>toBlameUri\<close> writes them. The JSON form of a range is the host's: the
  array of its two positions, each an object of \<open>line\<close> and \<open>character\<close>, which is the
  form \<^verbatim>\<open>fromBlameUri\<close> reads back.
\<close>

record IGitBlameUriData =
  u_fileName :: string
  u_sha :: string
  u_range :: Range
  u_index :: int

definition Position_toJSON :: "Position \<Rightarrow> json" where
  "Position_toJSON p =
     JObject [(''line'', JNumber (int (line p))), (''character'', JNumber (int (character p)))]"

definition Range_toJSON :: "Range \<Rightarrow> json" where
  "Range_toJSON r = JArray [Position_toJSON (r_start r), Position_toJSON (r_end r)]"

definition data_json :: "IGitBlameUriData \<Rightarrow> json" where
  "data_json d =
     JObject [(''fileName'', JString (u_fileName d)), (''sha'', JString (u_sha d)),
              (''range'', Range_toJSON (u_range d)), (''index'', JNumber (u_index d))]"

text \<open>
  \<^verbatim>\<open>toBlameUri\<close>: \<open>pad\<close> keeps the last characters of the index after seven zeros, as
  many as the commit count has digits; the text of the identifier is the template of the
  source, and \<^verbatim>\<open>Uri.parse\<close> makes the identifier of it.
\<close>

definition toBlameUri :: "host \<Rightarrow> string \<Rightarrow> IGitBlameCommit \<Rightarrow> Range \<Rightarrow> int \<Rightarrow> int \<Rightarrow> jserror + Uri" where
  "toBlameUri h repoPath commit rng index commitCount =
     (let pad = (\<lambda>n. slice (''0000000'' @ show_int n) (- int (length (show_int commitCount)))
                      (int (length (''0000000'' @ show_int n))));
          ext = extname h (c_fileName commit);
          path = dirname h (c_fileName commit) @ ''/'' @ c_sha commit @ '': '' @
                 basename h (c_fileName commit) ext @ ext;
          data = \<lparr>u_fileName = join h repoPath (c_fileName commit), u_sha = c_sha commit,
                  u_range = rng, u_index = index\<rparr>
      in Uri_parse h
           (GitBlame h @ '':'' @ pad index @ ''. '' @ c_author commit @ '', '' @
            moment_format h (c_date commit) ''MMM D, YYYY hh:MMa'' @ '' - '' @ path @ ''?'' @
            JSON_stringify (data_json data)))"

text \<open>
  \<^verbatim>\<open>fromBlameUri\<close>. Reading a property or an element of \<^verbatim>\<open>undefined\<close> or
  \<^verbatim>\<open>null\<close> throws a \<open>TypeError\<close>; of another value that does not have it, it gives
  \<^verbatim>\<open>undefined\<close> (\<open>None\<close>). The host's \<^verbatim>\<open>Range\<close> refuses a negative coordinate and
  puts the earlier of its two positions first. The result is typed as the interface says;
  a parsed value of another type in one of its fields is outside the model.
\<close>

definition property_of :: "json option \<Rightarrow> string \<Rightarrow> jserror + json option" where
  "property_of v k =
     (case v of
        None \<Rightarrow> Inl TypeError
      | Some JNull \<Rightarrow> Inl TypeError
      | Some (JObject ms) \<Rightarrow> Inr (map_of (rev ms) k)
      | Some _ \<Rightarrow> Inr None)"

definition element_of :: "json option \<Rightarrow> nat \<Rightarrow> jserror + json option" where
  "element_of v i =
     (case v of
        None \<Rightarrow> Inl TypeError
      | Some JNull \<Rightarrow> Inl TypeError
      | Some (JArray xs) \<Rightarrow> Inr (if i < length xs then Some (xs ! i) else None)
      | Some (JString s) \<Rightarrow> Inr (if i < length s then Some (JString [s ! i]) else None)
      | Some (JObject ms) \<Rightarrow> Inr (map_of (rev ms) (show_nat i))
      | Some _ \<Rightarrow> Inr None)"

definition coordinate :: "json option \<Rightarrow> jserror + nat" where
  "coordinate v =
     (case v of
        Some (JNumber n) \<Rightarrow> if n < 0 then Inl IllegalArgument else Inr (nat n)
      | _ \<Rightarrow> Inl OutsideModel)"

definition isBefore :: "Position \<Rightarrow> Position \<Rightarrow> bool" where
  "isBefore p q = (line p < line q \<or> (line p = line q \<and> character p < character q))"

definition Range_new :: "json option \<Rightarrow> json option \<Rightarrow> json option \<Rightarrow> json option \<Rightarrow> jserror + Range" where
  "Range_new startLine startColumn endLine endColumn =
     bindE (coordinate startLine) (\<lambda>l0.
     bindE (coordinate startColumn) (\<lambda>c0.
     bindE (coordinate endLine) (\<lambda>l1.
     bindE (coordinate endColumn) (\<lambda>c1.
       (let s = \<lparr>line = l0, character = c0\<rparr>; e = \<lparr>line = l1, character = c1\<rparr>
        in Inr (if isBefore s e then \<lparr>r_start = s, r_end = e\<rparr> else \<lparr>r_start = e, r_end = s\<rparr>))))))"

definition text_of :: "json option \<Rightarrow> jserror + string" where
  "text_of v = (case v of Some (JString s) \<Rightarrow> Inr s | _ \<Rightarrow> Inl OutsideModel)"

definition number_of :: "json option \<Rightarrow> jserror + int" where
  "number_of v = (case v of Some (JNumber n) \<Rightarrow> Inr n | _ \<Rightarrow> Inl OutsideModel)"

definition fromBlameUri :: "Uri \<Rightarrow> jserror + IGitBlameUriData" where
  "fromBlameUri uri =
     bindE (JSON_parse (query uri)) (\<lambda>data.
     bindE (property_of (Some data) ''range'') (\<lambda>r.
     bindE (element_of r 0) (\<lambda>r0.
     bindE (property_of r0 ''line'') (\<lambda>l0.
     bindE (property_of r0 ''character'') (\<lambda>c0.
     bindE (element_of r 1) (\<lambda>r1.
     bindE (property_of r1 ''line'') (\<lambda>l1.
     bindE (property_of r1 ''character'') (\<lambda>c1.
     bindE (Range_new l0 c0 l1 c1) (\<lambda>rng.
     bindE (property_of (Some data) ''fileName'') (\<lambda>f.
     bindE (text_of f) (\<lambda>fileName.
     bindE (property_of (Some data) ''sha'') (\<lambda>s.
     bindE (text_of s) (\<lambda>sha.
     bindE (property_of (Some data) ''index'') (\<lambda>i.
     bindE (number_of i) (\<lambda>index.
       Inr \<lparr>u_fileName = fileName, u_sha = sha, u_range = rng, u_index = index\<rparr>)))))))))))))))"

text \<open>
  A host for the examples: the path functions as the POSIX path module gives them for
  plain relative paths, one formatted date, and a percent-decoding that leaves a text
  without \<^verbatim>\<open>%\<close> as it is.
\<close>

definition after_last_slash :: "string \<Rightarrow> string" where
  "after_last_slash p = rev (takeWhile (\<lambda>c. c \<noteq> CHR ''/'') (rev p))"

definition example_extname :: "string \<Rightarrow> string" where
  "example_extname p =
     (let b = after_last_slash p; e = rev (takeWhile (\<lambda>c. c \<noteq> CHR ''.'') (rev b))
      in if length e + 1 < length b then CHR ''.'' # e else [])"

definition example_dirname :: "string \<Rightarrow> string" where
  "example_dirname p =
     (if CHR ''/'' \<in> set p then take (length p - length (after_last_slash p) - 1) p else ''.'')"

definition example_basename :: "string \<Rightarrow> string \<Rightarrow> string" where
  "example_basename p ext =
     (let b = after_last_slash p
      in if ext \<noteq> [] \<and> length ext < length b \<and> drop (length b - length ext) b = ext
         then take (length b - length ext) b else b)"

definition example_host :: host where
  "example_host =
     \<lparr>GitBlame = ''gitblame'',
      extname = example_extname,
      dirname = example_dirname,
      basename = example_basename,
      join = (\<lambda>a b. a @ ''/'' @ b),
      moment_format = (\<lambda>d f. ''Aug 31, 2016 02:08am''),
      decodeURIComponent = (\<lambda>s. if CHR ''%'' \<in> set s then None else Some s)\<rparr>"

definition example_commit :: "string \<Rightarrow> IGitBlameCommit" where
  "example_commit f =
     \<lparr>c_sha = ''3b7c2f1a'', c_fileName = f, c_author = ''Eric Amodio'',
      c_date = NewDate ''2016-08-31 02:15:06 -0400''\<rparr>"

definition example_sharp :: string where
  "example_sharp = ''3b7c2f1a src/c#/main.ts 1 (Eric Amodio 2016-08-31 02:15:06 -0400 1) x''"

text \<open>
  A parser result that, where it is a value, leaves less text than it was given.
\<close>

definition shorter :: "(jserror + json \<times> string) \<Rightarrow> string \<Rightarrow> bool" where
  "shorter res s = (case res of Inl e \<Rightarrow> True | Inr (v, r) \<Rightarrow> length r < length s)"

section \<open>Vocabulary of the properties\<close>

text \<open>
  What one turn of the loop does to the commit map: a hash seen for the first time gets
  the commit record of the match, a hash already there keeps its record.
\<close>

definition add_commit :: "string list \<Rightarrow> (string, IGitBlameCommit) jsmap \<Rightarrow> (string, IGitBlameCommit) jsmap" where
  "add_commit m cmap =
     (if \<not> Map_has cmap (m ! 1) then Map_set cmap (m ! 1) (Some (commit_of_match m)) else cmap)"

text \<open>The elements of an array at the indices \<open>s\<close> to \<open>e\<close>, both included, as far as the array goes.\<close>

definition inclusive_rows :: "'a list \<Rightarrow> nat \<Rightarrow> nat \<Rightarrow> 'a list" where
  "inclusive_rows xs s e = map (nth xs) [s ..< min (Suc e) (length xs)]"

text \<open>Every line record of a blame result refers to a key of its commit map.\<close>

definition blame_ok :: "IGitBlame \<Rightarrow> bool" where
  "blame_ok b = (\<forall>l\<in>set (lines b). Map_has (commits b) (l_sha l))"

text \<open>
  Three lines of attribution text, the first and the third of the same commit, and a text
  in which one commit is credited with lines that come from two source files.
\<close>

definition example_text :: string where
  "example_text =
     ''3b7c2f1a src/app.ts  1 (Eric Amodio  2016-08-31 02:15:06 -0400  1) import x;'' @ [CHR 0x0A] @
     ''9e1d4c55 src/old.ts  7 (Ada Byron    2016-09-01 10:00:00 +0200  2) let y;'' @ [CHR 0x0A] @
     ''3b7c2f1a src/app.ts  3 (Eric Amodio  2016-08-31 02:15:06 -0400  3) }''"

definition example_moved :: string where
  "example_moved =
     ''3b7c2f1a src/a.ts 1 (Ada 2016-08-31 02:15:06 -0400 1) x'' @ [CHR 0x0A] @
     ''3b7c2f1a src/b.ts 5 (Ada 2016-08-31 02:15:06 -0400 2) y''"

text \<open>
  An invariant of the worlds a provider can be in: a cached promise exists, and a
  fulfilled promise holds the parse of some text.
\<close>

definition produced :: "world \<Rightarrow> bool" where
  "produced w =
     ((\<forall>f p. Map_get (files w) f = Some p \<longrightarrow> p < length (promises w)) \<and>
      (\<forall>p < length (promises w). \<forall>b. promises w ! p = Fulfilled b \<longrightarrow> (\<exists>data. b = parseBlame data)))"

text \<open>
  Worlds and events for the examples: two files asked for, a file whose text has arrived,
  a file with no attribution at all, a range over the rows 1 to 2, and a sequence of
  events that leaves the entry of \<^verbatim>\<open>src/app.ts\<close> alone.
\<close>

definition example_world :: world where
  "example_world = run [CallBlameFile ''src/other.ts'', CallBlameFile ''src/app.ts''] constructor"

definition example_resolved :: world where
  "example_resolved = run [CallBlameFile ''src/app.ts'', Settles 0 (Inr example_text)] constructor"

definition example_empty :: world where
  "example_empty = run [CallBlameFile ''src/empty.ts'', Settles 0 (Inr '''')] constructor"

definition example_range :: Range where
  "example_range = \<lparr>r_start = \<lparr>line = 1, character = 0\<rparr>, r_end = \<lparr>line = 2, character = 4\<rparr>\<rparr>"

definition example_events :: "event list" where
  "example_events =
     [CallBlameFile ''src/other.ts'',
      Settles 0 (Inr example_text),
      CallGetBlameForRange ''src/app.ts''
        \<lparr>r_start = \<lparr>line = 0, character = 0\<rparr>, r_end = \<lparr>line = 1, character = 0\<rparr>\<rparr>,
      DocumentChanged \<lparr>document = \<lparr>fileName = ''src/other.ts''\<rparr>\<rparr>,
      CallBlameFile ''src/other.ts'']"

section \<open>The parsing loop\<close>

lemma blameLoop_fold:
  "blameLoop data i cmap larr =
     \<lparr>commits = fold add_commit (execAll data i) cmap,
      lines = larr @ map line_of_match (execAll data i)\<rparr>"
proof (induction data i cmap larr rule: blameLoop.induct)
  case (1 data lastIndex cmap larr)
  show ?case
  proof (cases "exec data lastIndex")
    case None
    then show ?thesis
      by (simp add: blameLoop.simps [of data lastIndex] execAll.simps [of data lastIndex])
  next
    case (Some r)
    obtain m e where r: "r = (m, e)" by (cases r)
    have ex: "exec data lastIndex = Some (m, e)"
      using Some r by simp
    have ih: "blameLoop data e (add_commit m cmap) (larr @ [line_of_match m]) =
        \<lparr>commits = fold add_commit (execAll data e) (add_commit m cmap),
         lines = (larr @ [line_of_match m]) @ map line_of_match (execAll data e)\<rparr>"
      unfolding add_commit_def [of m cmap] commit_of_match_def [of m] line_of_match_def [of m]
      by (rule "1.IH" [OF ex refl refl refl refl])
    have unf: "blameLoop data lastIndex cmap larr =
        blameLoop data e (add_commit m cmap) (larr @ [line_of_match m])"
      by (subst blameLoop.simps)
         (simp only: ex option.case prod.case Let_def add_commit_def commit_of_match_def
            line_of_match_def)
    have all: "execAll data lastIndex = m # execAll data e"
      by (subst execAll.simps) (simp only: ex option.case prod.case)
    show ?thesis
      by (simp only: unf ih all fold_Cons list.map append_assoc append_Cons append_Nil comp_apply)
  qed
qed

lemma remdups_snoc: "remdups (xs @ [x]) = remdups (filter (\<lambda>y. y \<noteq> x) xs) @ [x]"
  by (induction xs) auto

lemma first_occurrences_Nil: "first_occurrences [] = []"
  by (simp add: first_occurrences_def)

lemma first_occurrences_Cons:
  "first_occurrences (x # xs) = x # filter (\<lambda>y. y \<noteq> x) (first_occurrences xs)"
proof -
  have "remdups (rev xs @ [x]) = remdups (filter (\<lambda>y. y \<noteq> x) (rev xs)) @ [x]"
    by (rule remdups_snoc)
  then show ?thesis
    by (simp add: first_occurrences_def remdups_filter rev_filter)
qed

lemma set_first_occurrences: "set (first_occurrences xs) = set xs"
  by (simp add: first_occurrences_def)

lemma distinct_first_occurrences: "distinct (first_occurrences xs)"
  by (simp add: first_occurrences_def)

lemma keys_Map_set:
  "map fst (Map_set m k v) = (if k \<in> set (map fst m) then map fst m else map fst m @ [k])"
  by (induction m) force+

lemma keys_add_commit:
  "map fst (add_commit m cmap) =
     (if m ! 1 \<in> set (map fst cmap) then map fst cmap else map fst cmap @ [m ! 1])"
  by (simp add: add_commit_def Map_has_def keys_Map_set)

lemma keys_fold_add_commit:
  "map fst (fold add_commit ms cmap) =
     map fst cmap @ filter (\<lambda>k. k \<notin> set (map fst cmap)) (first_occurrences (map (\<lambda>m. m ! 1) ms))"
proof (induction ms arbitrary: cmap)
  case Nil
  then show ?case by (simp add: first_occurrences_Nil)
next
  case (Cons m ms)
  show ?case
  proof (cases "m ! 1 \<in> set (map fst cmap)")
    case True
    then have "filter (\<lambda>k. k \<notin> set (map fst cmap)) (filter (\<lambda>y. y \<noteq> m ! 1) (first_occurrences (map (\<lambda>m. m ! 1) ms)))
        = filter (\<lambda>k. k \<notin> set (map fst cmap)) (first_occurrences (map (\<lambda>m. m ! 1) ms))"
      by (auto intro!: filter_cong)
    with True show ?thesis
      by (simp add: Cons.IH keys_add_commit first_occurrences_Cons)
  next
    case False
    have "filter (\<lambda>k. k \<noteq> m ! 1 \<and> k \<notin> fst ` set cmap) (first_occurrences (map (\<lambda>m. m ! 1) ms))
        = filter (\<lambda>k. k \<notin> fst ` set cmap) (filter (\<lambda>y. y \<noteq> m ! 1) (first_occurrences (map (\<lambda>m. m ! 1) ms)))"
      by (auto intro!: filter_cong)
    with False show ?thesis
      by (simp add: Cons.IH keys_add_commit first_occurrences_Cons)
  qed
qed

lemma Map_get_Map_set:
  "Map_get (Map_set m k v) k' = (if k' = k then v else Map_get m k')"
  by (induction m) (auto simp: Map_get_def)

lemma Map_has_Map_set: "Map_has (Map_set m k v) k' = (k' = k \<or> Map_has m k')"
  by (auto simp: Map_has_def keys_Map_set)

lemma Map_get_not_has: "\<not> Map_has m k \<Longrightarrow> Map_get m k = None"
  by (induction m) (auto simp: Map_get_def Map_has_def)

lemma Map_has_add_commit: "Map_has (add_commit m cmap) k = (k = m ! 1 \<or> Map_has cmap k)"
  by (auto simp: add_commit_def Map_has_Map_set)

lemma Map_get_add_commit:
  "Map_get (add_commit m cmap) k =
     (if k = m ! 1 \<and> \<not> Map_has cmap k then Some (commit_of_match m) else Map_get cmap k)"
  by (auto simp: add_commit_def Map_get_Map_set)

lemma Map_get_fold_add_commit:
  "Map_get (fold add_commit ms cmap) h =
     (if Map_has cmap h then Map_get cmap h
      else map_option commit_of_match (find (\<lambda>m. m ! 1 = h) ms))"
proof (induction ms arbitrary: cmap)
  case Nil
  then show ?case by (simp add: Map_get_not_has)
next
  case (Cons m ms)
  then show ?case
    by (auto simp: Map_has_add_commit Map_get_add_commit)
qed

lemma parseBlame_lines: "lines (parseBlame data) = map line_of_match (execAll data 0)"
  by (simp add: parseBlame_def blameLoop_fold)

lemma parseBlame_keys:
  "map fst (commits (parseBlame data)) = first_occurrences (map (\<lambda>m. m ! 1) (execAll data 0))"
  by (simp add: parseBlame_def blameLoop_fold keys_fold_add_commit)

lemma parseBlame_get:
  "Map_get (commits (parseBlame data)) h =
     map_option commit_of_match (find (\<lambda>m. m ! 1 = h) (execAll data 0))"
  by (simp add: parseBlame_def blameLoop_fold Map_get_fold_add_commit Map_has_def)

section \<open>The cache and its promises\<close>

lemma map_of_filter_key:
  "map_of (filter (\<lambda>kv. fst kv \<noteq> k) m) k' = (if k' = k then None else map_of m k')"
  by (induction m) auto

lemma Map_get_Map_delete:
  "Map_get (Map_delete m k) k' = (if k' = k then None else Map_get m k')"
  by (simp add: Map_get_def Map_delete_def map_of_filter_key)

lemma Map_has_Map_delete: "Map_has (Map_delete m k) k' = (k' \<noteq> k \<and> Map_has m k')"
  by (auto simp: Map_has_def Map_delete_def)

lemma Map_delete_absent: "\<not> Map_has m k \<Longrightarrow> Map_delete m k = m"
  by (induction m) (auto simp: Map_has_def Map_delete_def)

lemma blameFile_hit: "Map_get (files w) f = Some p \<Longrightarrow> blameFile f w = (p, w)"
  by (simp add: blameFile_def)

lemma blameFile_miss:
  "Map_get (files w) f = None \<Longrightarrow>
     blameFile f w =
       (length (promises w),
        w\<lparr>gitBlameCalls := gitBlameCalls w @ [f], promises := promises w @ [Pending],
          files := Map_set (files w) f (Some (length (promises w)))\<rparr>)"
  by (simp add: blameFile_def Let_def)

lemma blameFile_cached:
  "blameFile f w = (p, w1) \<Longrightarrow> Map_get (files w1) f = Some p"
  by (cases "Map_get (files w) f") (auto simp: blameFile_miss blameFile_hit Map_get_Map_set)

lemma blameFile_other:
  "Map_get (files w) f = Some p \<Longrightarrow> Map_get (files (snd (blameFile g w))) f = Some p"
  by (cases "Map_get (files w) g") (auto simp: blameFile_miss blameFile_hit Map_get_Map_set)

lemma snd_getBlameForRange: "snd (getBlameForRange f r w) = snd (blameFile f w)"
  by (simp add: getBlameForRange_def split: prod.splits)

lemma snd_getBlameForShaRange: "snd (getBlameForShaRange f h r w) = snd (blameFile f w)"
  by (simp add: getBlameForShaRange_def split: prod.splits)

lemma step_keeps_entry:
  "Map_get (files w) f = Some p \<Longrightarrow> \<not> invalidates f e \<Longrightarrow> Map_get (files (step e w)) f = Some p"
  by (cases e)
     (auto simp: blameFile_other snd_getBlameForRange snd_getBlameForShaRange
        onDidCloseTextDocument_def onDidChangeTextDocument_def removeFile_def
        Map_get_Map_delete gitBlame_settles_def)

lemma run_Nil: "run [] w = w"
  by (simp add: run_def)

lemma run_Cons: "run (e # evs) w = run evs (step e w)"
  by (simp add: run_def)

lemma run_append: "run (evs @ evs') w = run evs' (run evs w)"
  by (simp add: run_def)

lemma run_keeps_entry:
  "Map_get (files w) f = Some p \<Longrightarrow> \<forall>e\<in>set evs. \<not> invalidates f e \<Longrightarrow>
     Map_get (files (run evs w)) f = Some p"
proof (induction evs arbitrary: w)
  case Nil
  then show ?case by (simp add: run_Nil)
next
  case (Cons e evs)
  then show ?case
    by (simp add: run_Cons step_keeps_entry)
qed

lemma blameFile_promises:
  "length (promises w) \<le> length (promises (snd (blameFile g w))) \<and>
   (\<forall>p < length (promises w). promises (snd (blameFile g w)) ! p = promises w ! p)"
  by (cases "Map_get (files w) g") (auto simp: blameFile_miss blameFile_hit nth_append)

lemma step_promises:
  "length (promises w) \<le> length (promises (step e w)) \<and>
   (\<forall>p < length (promises w).
      promises w ! p \<noteq> Pending \<or> (\<forall>out. e \<noteq> Settles p out) \<longrightarrow>
      promises (step e w) ! p = promises w ! p)"
proof (cases e)
  case (Settles q out)
  then show ?thesis
    by (auto simp: gitBlame_settles_def nth_list_update)
qed (use blameFile_promises in \<open>auto simp: snd_getBlameForRange snd_getBlameForShaRange
        onDidCloseTextDocument_def onDidChangeTextDocument_def removeFile_def dispose_def\<close>)

lemma step_keeps_settled:
  "p < length (promises w) \<Longrightarrow> promises w ! p \<noteq> Pending \<Longrightarrow>
     p < length (promises (step e w)) \<and> promises (step e w) ! p = promises w ! p"
  using step_promises [of w e] by auto

lemma run_keeps_settled:
  "p < length (promises w) \<Longrightarrow> promises w ! p \<noteq> Pending \<Longrightarrow>
     p < length (promises (run evs w)) \<and> promises (run evs w) ! p = promises w ! p"
proof (induction evs arbitrary: w)
  case Nil
  then show ?case by (simp add: run_Nil)
next
  case (Cons e evs)
  from step_keeps_settled [OF Cons.prems, of e]
  have s: "p < length (promises (step e w))" "promises (step e w) ! p = promises w ! p"
    by auto
  with Cons.prems have "promises (step e w) ! p \<noteq> Pending" by simp
  from Cons.IH [OF s(1) this] s(2) show ?case
    by (simp add: run_Cons)
qed

lemma step_keeps_pending:
  "p < length (promises w) \<Longrightarrow> promises w ! p = Pending \<Longrightarrow> \<forall>out. e \<noteq> Settles p out \<Longrightarrow>
     p < length (promises (step e w)) \<and> promises (step e w) ! p = Pending"
  using step_promises [of w e] by auto

lemma run_keeps_pending:
  "p < length (promises w) \<Longrightarrow> promises w ! p = Pending \<Longrightarrow>
   \<forall>e\<in>set evs. \<forall>out. e \<noteq> Settles p out \<Longrightarrow>
     p < length (promises (run evs w)) \<and> promises (run evs w) ! p = Pending"
proof (induction evs arbitrary: w)
  case Nil
  then show ?case by (simp add: run_Nil)
next
  case (Cons e evs)
  have "\<forall>out. e \<noteq> Settles p out"
    using Cons.prems(3) by simp
  from step_keeps_pending [OF Cons.prems(1,2) this] Cons.IH [of "step e w"] Cons.prems(3)
  show ?case
    by (simp add: run_Cons)
qed

section \<open>Slices of a blame result\<close>

lemma rows_drop_take: "j \<le> length xs \<Longrightarrow> map (nth xs) [i ..< j] = drop i (take j xs)"
  by (rule nth_equalityI) auto

lemma slice_rows: "slice xs (int s) (int e + 1) = inclusive_rows xs s e"
proof -
  have e: "int e + 1 = int (Suc e)"
    by simp
  have k: "min (int s) (int (length xs)) = int (min s (length xs))"
    and f: "min (int (Suc e)) (int (length xs)) = int (min (Suc e) (length xs))"
    by simp_all
  have d: "nat (int (min (Suc e) (length xs)) - int (min s (length xs))) =
      min (Suc e) (length xs) - min s (length xs)"
    by (simp add: nat_diff_distrib')
  have "slice xs (int s) (int e + 1) =
      take (min (Suc e) (length xs) - min s (length xs)) (drop (min s (length xs)) xs)"
    unfolding slice_def Let_def e by (simp only: k f d of_nat_less_0_iff if_False nat_int)
  also have "\<dots> = drop s (take (min (Suc e) (length xs)) xs)"
    by (cases "s \<le> length xs") (simp_all add: drop_take min_def)
  also have "\<dots> = inclusive_rows xs s e"
    by (simp add: inclusive_rows_def rows_drop_take)
  finally show ?thesis .
qed

lemma Map_get_Nil: "Map_get [] h = None"
  by (simp add: Map_get_def)

lemma baseUniq_keys:
  "map f (baseUniq f seen xs) = filter (\<lambda>k. k \<notin> set seen) (first_occurrences (map f xs))"
proof (induction xs arbitrary: seen)
  case Nil
  then show ?case by (simp add: first_occurrences_Nil)
next
  case (Cons x xs)
  show ?case
  proof (cases "f x \<in> set seen")
    case True
    then have "filter (\<lambda>k. k \<notin> set seen) (filter (\<lambda>y. y \<noteq> f x) (first_occurrences (map f xs)))
        = filter (\<lambda>k. k \<notin> set seen) (first_occurrences (map f xs))"
      by (auto intro!: filter_cong)
    with True show ?thesis
      by (simp add: Cons.IH first_occurrences_Cons)
  next
    case False
    have "filter (\<lambda>k. k \<noteq> f x \<and> k \<notin> set seen) (first_occurrences (map f xs))
        = filter (\<lambda>k. k \<notin> set seen) (filter (\<lambda>y. y \<noteq> f x) (first_occurrences (map f xs)))"
      by (auto intro!: filter_cong)
    with False show ?thesis
      by (simp add: Cons.IH first_occurrences_Cons)
  qed
qed

lemma baseUniq_subset: "set (baseUniq f seen xs) \<subseteq> set xs"
  by (induction xs arbitrary: seen) auto

lemma uniqBy_keys: "map f (uniqBy xs f) = first_occurrences (map f xs)"
  by (simp add: uniqBy_def baseUniq_keys)

lemma fold_set_keys:
  "distinct (map k ys) \<Longrightarrow> set (map k ys) \<inter> set (map fst c0) = {} \<Longrightarrow>
     map fst (fold (\<lambda>l c. Map_set c (k l) (g (k l))) ys c0) = map fst c0 @ map k ys"
proof (induction ys arbitrary: c0)
  case Nil
  then show ?case by simp
next
  case (Cons y ys)
  have k: "map fst (Map_set c0 (k y) (g (k y))) = map fst c0 @ [k y]"
    using Cons.prems(2) by (simp add: keys_Map_set)
  have "set (map k ys) \<inter> set (map fst (Map_set c0 (k y) (g (k y)))) = {}"
    using Cons.prems by (auto simp: k)
  with Cons.IH [of "Map_set c0 (k y) (g (k y))"] Cons.prems(1) show ?case
    by (simp add: k)
qed

lemma fold_set_get:
  "Map_get (fold (\<lambda>l c. Map_set c (k l) (g (k l))) ys c0) h =
     (if h \<in> k ` set ys then g h else Map_get c0 h)"
  by (induction ys arbitrary: c0) (auto simp: Map_get_Map_set)

lemma callback_lines:
  "lines b \<noteq> [] \<Longrightarrow>
     lines (getBlameForRange_callback r b) = inclusive_rows (lines b) (line (r_start r)) (line (r_end r))"
  by (simp add: getBlameForRange_callback_def Let_def slice_rows)

lemma callback_keys:
  "lines b \<noteq> [] \<Longrightarrow>
     map fst (commits (getBlameForRange_callback r b)) =
       first_occurrences (map l_sha (lines (getBlameForRange_callback r b)))"
proof -
  assume ne: "lines b \<noteq> []"
  let ?larr = "slice (lines b) (int (line (r_start r))) (int (line (r_end r)) + 1)"
  have d: "distinct (map l_sha (uniqBy ?larr l_sha))"
    by (simp add: uniqBy_keys distinct_first_occurrences)
  have "map fst (fold (\<lambda>l c. Map_set c (l_sha l) (Map_get (commits b) (l_sha l))) (uniqBy ?larr l_sha) [])
      = map l_sha (uniqBy ?larr l_sha)"
    using fold_set_keys [of l_sha "uniqBy ?larr l_sha" "[]" "Map_get (commits b)"] d by simp
  with ne show ?thesis
    by (simp add: getBlameForRange_callback_def Let_def uniqBy_keys)
qed

lemma callback_get:
  "lines b \<noteq> [] \<Longrightarrow>
     Map_get (commits (getBlameForRange_callback r b)) h =
       (if h \<in> l_sha ` set (lines (getBlameForRange_callback r b)) then Map_get (commits b) h else None)"
proof -
  assume ne: "lines b \<noteq> []"
  let ?larr = "slice (lines b) (int (line (r_start r))) (int (line (r_end r)) + 1)"
  have "l_sha ` set (uniqBy ?larr l_sha) = l_sha ` set ?larr"
    using uniqBy_keys [of l_sha ?larr] set_first_occurrences [of "map l_sha ?larr"]
    by (metis list.set_map)
  with ne show ?thesis
    by (simp add: getBlameForRange_callback_def Let_def fold_set_get Map_get_Nil)
qed

lemma callback_empty: "lines b = [] \<Longrightarrow> getBlameForRange_callback r b = b"
  by (simp add: getBlameForRange_callback_def)

lemma parseBlame_ok: "blame_ok (parseBlame data)"
proof -
  have "set (map fst (commits (parseBlame data))) = set (map (\<lambda>m. m ! 1) (execAll data 0))"
    by (simp only: parseBlame_keys set_first_occurrences)
  then show ?thesis
    by (auto simp: blame_ok_def Map_has_def parseBlame_lines line_of_match_def)
qed

lemma callback_ok: "blame_ok b \<Longrightarrow> blame_ok (getBlameForRange_callback r b)"
proof (cases "lines b = []")
  case True
  then show "blame_ok b \<Longrightarrow> ?thesis" by (simp add: callback_empty)
next
  case False
  have "set (map fst (commits (getBlameForRange_callback r b))) =
      set (map l_sha (lines (getBlameForRange_callback r b)))"
    by (simp only: callback_keys [OF False] set_first_occurrences)
  then show ?thesis
    by (auto simp: blame_ok_def Map_has_def)
qed

section \<open>Reachable worlds and the examples\<close>

lemma example_text_lines: "map line_of_match (execAll example_text 0) =
   [\<lparr>l_sha = ''3b7c2f1a'', l_originalLine = Num 0, l_line = Num 0\<rparr>,
    \<lparr>l_sha = ''9e1d4c55'', l_originalLine = Num 6, l_line = Num 1\<rparr>,
    \<lparr>l_sha = ''3b7c2f1a'', l_originalLine = Num 2, l_line = Num 2\<rparr>]"
  by code_simp

lemma example_text_keys: "first_occurrences (map (\<lambda>m. m ! 1) (execAll example_text 0)) = [''3b7c2f1a'', ''9e1d4c55'']"
  by code_simp

lemma example_text_matches:
  "execAll example_text 0 =
     [[''3b7c2f1a src/app.ts  1 (Eric Amodio  2016-08-31 02:15:06 -0400  1) import x;'',
       ''3b7c2f1a'', ''src/app.ts'', ''1'', ''Eric Amodio '', ''2016-08-31 02:15:06 -0400'', ''1'',
       '' import x;''],
      [''9e1d4c55 src/old.ts  7 (Ada Byron    2016-09-01 10:00:00 +0200  2) let y;'',
       ''9e1d4c55'', ''src/old.ts'', ''7'', ''Ada Byron   '', ''2016-09-01 10:00:00 +0200'', ''2'',
       '' let y;''],
      [''3b7c2f1a src/app.ts  3 (Eric Amodio  2016-08-31 02:15:06 -0400  3) }'',
       ''3b7c2f1a'', ''src/app.ts'', ''3'', ''Eric Amodio '', ''2016-08-31 02:15:06 -0400'', ''3'',
       '' }'']]"
  by code_simp

lemma example_text_parse:
  "parseBlame example_text =
     \<lparr>commits =
        [(''3b7c2f1a'', Some \<lparr>c_sha = ''3b7c2f1a'', c_fileName = ''src/app.ts'',
            c_author = ''Eric Amodio'', c_date = NewDate ''2016-08-31 02:15:06 -0400''\<rparr>),
         (''9e1d4c55'', Some \<lparr>c_sha = ''9e1d4c55'', c_fileName = ''src/old.ts'',
            c_author = ''Ada Byron'', c_date = NewDate ''2016-09-01 10:00:00 +0200''\<rparr>)],
      lines =
        [\<lparr>l_sha = ''3b7c2f1a'', l_originalLine = Num 0, l_line = Num 0\<rparr>,
         \<lparr>l_sha = ''9e1d4c55'', l_originalLine = Num 6, l_line = Num 1\<rparr>,
         \<lparr>l_sha = ''3b7c2f1a'', l_originalLine = Num 2, l_line = Num 2\<rparr>]\<rparr>"
  by code_simp

lemma empty_text_parse: "parseBlame '''' = \<lparr>commits = [], lines = []\<rparr>"
  by code_simp

lemma example_world_eq:
  "example_world =
     \<lparr>files = [(''src/other.ts'', Some 0), (''src/app.ts'', Some 1)], promises = [Pending, Pending],
      gitBlameCalls = [''src/other.ts'', ''src/app.ts''], subscriptions = True\<rparr>"
  by (simp add: example_world_def run_def blameFile_def constructor_def Map_get_def)

lemma example_resolved_eq:
  "example_resolved =
     \<lparr>files = [(''src/app.ts'', Some 0)], promises = [Fulfilled (parseBlame example_text)],
      gitBlameCalls = [''src/app.ts''], subscriptions = True\<rparr>"
  by (simp add: example_resolved_def run_def blameFile_def constructor_def Map_get_def
      gitBlame_settles_def)

lemma example_empty_eq:
  "example_empty =
     \<lparr>files = [(''src/empty.ts'', Some 0)], promises = [Fulfilled (parseBlame '''')],
      gitBlameCalls = [''src/empty.ts''], subscriptions = True\<rparr>"
  by (simp add: example_empty_def run_def blameFile_def constructor_def Map_get_def
      gitBlame_settles_def)

lemma blameFile_calls:
  "Map_get (files w) f = Some p \<Longrightarrow>
     filter (\<lambda>g. g = f) (gitBlameCalls (snd (blameFile g w))) = filter (\<lambda>g. g = f) (gitBlameCalls w)"
  by (cases "Map_get (files w) g") (auto simp: blameFile_miss blameFile_hit)

lemma step_calls:
  "Map_get (files w) f = Some p \<Longrightarrow> \<not> invalidates f e \<Longrightarrow>
     filter (\<lambda>g. g = f) (gitBlameCalls (step e w)) = filter (\<lambda>g. g = f) (gitBlameCalls w)"
  by (cases e)
     (auto simp: blameFile_calls snd_getBlameForRange snd_getBlameForShaRange
        onDidCloseTextDocument_def onDidChangeTextDocument_def removeFile_def
        gitBlame_settles_def)

lemma run_calls:
  "Map_get (files w) f = Some p \<Longrightarrow> \<forall>e\<in>set evs. \<not> invalidates f e \<Longrightarrow>
     filter (\<lambda>g. g = f) (gitBlameCalls (run evs w)) = filter (\<lambda>g. g = f) (gitBlameCalls w)"
proof (induction evs arbitrary: w)
  case Nil
  then show ?case by (simp add: run_Nil)
next
  case (Cons e evs)
  from Cons.prems have keep: "Map_get (files (step e w)) f = Some p"
    by (simp add: step_keeps_entry)
  from Cons.IH [OF keep] Cons.prems show ?case
    by (simp add: run_Cons step_calls)
qed

lemma invalidation_removes_entry_aux:
  "fst (blameFile f (removeFile f w)) = length (promises w) \<and>
   gitBlameCalls (snd (blameFile f (removeFile f w))) = gitBlameCalls w @ [f]"
proof -
  have gone: "Map_get (files (removeFile f w)) f = None"
    by (simp add: removeFile_def Map_get_Map_delete)
  show ?thesis
    using blameFile_miss [OF gone] by (simp add: removeFile_def)
qed

lemma parseBlame_empty: "lines (parseBlame data) = [] \<Longrightarrow> commits (parseBlame data) = []"
proof -
  assume "lines (parseBlame data) = []"
  then have "execAll data 0 = []"
    by (simp add: parseBlame_lines)
  then have "map fst (commits (parseBlame data)) = []"
    by (simp add: parseBlame_keys first_occurrences_Nil)
  then show ?thesis
    by simp
qed

lemma produced_constructor: "produced constructor"
  by (simp add: produced_def constructor_def Map_get_def)

lemma produced_blameFile: "produced w \<Longrightarrow> produced (snd (blameFile g w))"
proof (cases "Map_get (files w) g")
  case None
  assume "produced w"
  then show ?thesis
    by (auto simp: produced_def blameFile_miss [OF None] Map_get_Map_set nth_append less_Suc_eq)
next
  case (Some p)
  assume "produced w"
  then show ?thesis
    by (simp add: blameFile_hit [OF Some])
qed

lemma produced_removeFile: "produced w \<Longrightarrow> produced (removeFile g w)"
  by (auto simp: produced_def removeFile_def Map_get_Map_delete split: if_splits)

lemma produced_settles: "produced w \<Longrightarrow> produced (gitBlame_settles p out w)"
  by (cases out) (auto simp: produced_def gitBlame_settles_def nth_list_update)

lemma produced_dispose: "produced w \<Longrightarrow> produced (dispose w)"
  by (simp add: produced_def dispose_def Map_get_def)

lemma produced_step: "produced w \<Longrightarrow> produced (step e w)"
  by (cases e)
     (auto simp: produced_blameFile snd_getBlameForRange snd_getBlameForShaRange
        onDidCloseTextDocument_def onDidChangeTextDocument_def produced_removeFile
        produced_settles produced_dispose)

lemma produced_run: "produced w \<Longrightarrow> produced (run evs w)"
  by (induction evs arbitrary: w) (simp_all add: run_Nil run_Cons produced_step)

lemma fst_getBlameForRange:
  "Map_get (files w) f = Some p \<Longrightarrow> getBlameForRange f r w = (Then p (getBlameForRange_callback r), w)"
  by (simp add: getBlameForRange_def blameFile_hit)

lemma getBlameForRange_eq:
  "blameFile f w = (p, w1) \<Longrightarrow> getBlameForRange f r w = (Then p (getBlameForRange_callback r), w1)"
  by (simp add: getBlameForRange_def)

lemma getBlameForShaRange_eq:
  "blameFile f w = (p, w1) \<Longrightarrow>
     getBlameForShaRange f h r w = (Then p (getBlameForShaRange_callback h r), w1)"
  by (simp add: getBlameForShaRange_def)

section \<open>The JSON parser has fuel enough\<close>

lemma parse_chars_shorter:
  "parse_chars acc s = Inr (x, r) \<Longrightarrow> length r < length s"
proof (induction acc s rule: parse_chars.induct)
  case (1 acc)
  then show ?case by simp
next
  case (2 acc c cs)
  show ?case
  proof (cases "c \<noteq> CHR 0x5C")
    case True
    with 2 show ?thesis
      by (auto split: if_splits)
  next
    case False
    then have c: "c = CHR 0x5C" by simp
    then obtain d r' where u: "unescape cs = Inr (d, r')" and p: "parse_chars (acc @ [d]) r' = Inr (x, r)"
      using "2.prems" by (auto split: sum.splits)
    have "c \<noteq> CHR 0x22" "\<not> (of_char c :: nat) < 32" "\<not> c \<noteq> CHR 0x5C"
      using c by simp_all
    from "2.IH"(2) [OF this u refl p] have "length r < length r'" .
    with unescape_shorter [OF u] show ?thesis
      by simp
  qed
qed

lemma parse_number_shorter: "parse_number s = Inr (v, r) \<Longrightarrow> length r < length s"
proof -
  assume a: "parse_number s = Inr (v, r)"
  define u where "u = (if (case s of [] \<Rightarrow> False | c # _ \<Rightarrow> c = CHR ''-'') then tl s else s)"
  from a have ne: "takeWhile is_digit u \<noteq> []" and r: "r = dropWhile is_digit u"
    by (auto simp: parse_number_def Let_def u_def split: if_splits)
  have "length (takeWhile is_digit u) + length (dropWhile is_digit u) = length u"
    by (metis length_append takeWhile_dropWhile_id)
  with ne r have "length r < length u"
    by (cases "takeWhile is_digit u") auto
  moreover have "length u \<le> length s"
    by (simp add: u_def)
  ultimately show ?thesis
    by simp
qed

lemma literal_shorter: "w \<noteq> [] \<Longrightarrow> literal w v s = Inr (x, r) \<Longrightarrow> length r < length s"
proof -
  assume w: "w \<noteq> []" and a: "literal w v s = Inr (x, r)"
  from a have t: "take (length w) s = w" and r: "r = drop (length w) s"
    by (auto simp: literal_def split: if_splits)
  have "length (take (length w) s) = length w"
    by (simp only: t)
  then have "length w \<le> length s"
    by simp
  with w r show ?thesis
    by (cases w) auto
qed

lemma dropWhile_Cons_shorter: "dropWhile P s = c # cs \<Longrightarrow> length cs < length s"
  by (metis length_dropWhile_le length_Cons less_eq_Suc_le)

lemma unescape_fuel: "unescape cs \<noteq> Inl OutOfFuel"
  unfolding unescape_def
  by (auto split: list.splits if_splits option.splits)

lemma parse_chars_fuel: "parse_chars acc s \<noteq> Inl OutOfFuel"
proof (induction acc s rule: parse_chars.induct)
  case (1 acc)
  then show ?case by simp
next
  case (2 acc c cs)
  show ?case
  proof (cases "unescape cs")
    case (Inl e)
    with 2 unescape_fuel [of cs] show ?thesis by auto
  next
    case (Inr p)
    obtain d r where p: "p = (d, r)" by (cases p)
    with 2 Inr show ?thesis by auto
  qed
qed

lemma parse_number_fuel: "parse_number s \<noteq> Inl OutOfFuel"
  by (simp add: parse_number_def Let_def)

lemma literal_fuel: "literal w v s \<noteq> Inl OutOfFuel"
  by (simp add: literal_def)

lemma shorterI: "(\<And>v r. res = Inr (v, r) \<Longrightarrow> length r < length s) \<Longrightarrow> shorter res s"
  by (auto simp: shorter_def split: sum.splits)

lemma shorterD: "shorter res s \<Longrightarrow> res = Inr (v, r) \<Longrightarrow> length r < length s"
  by (auto simp: shorter_def)

lemma shorter_value:
  assumes E: "\<And>s acc. shorter (parse_elements n acc s) s"
    and M: "\<And>s acc. shorter (parse_members n acc s) s"
  shows "shorter (parse_value (Suc n) s) s"
proof (rule shorterI)
  fix v r
  assume a: "parse_value (Suc n) s = Inr (v, r)"
  then obtain c cs where d: "dropWhile is_json_ws s = c # cs"
    by (cases "dropWhile is_json_ws s") auto
  note l = dropWhile_Cons_shorter [OF d]
  consider (obj) "c = CHR ''{''" | (arr) "c \<noteq> CHR ''{''" "c = CHR ''[''"
    | (str) "c \<noteq> CHR ''{''" "c \<noteq> CHR ''[''" "c = CHR 0x22"
    | (other) "c \<noteq> CHR ''{''" "c \<noteq> CHR ''[''" "c \<noteq> CHR 0x22"
    by blast
  then have "length r < length (c # cs)"
  proof cases
    case obj
    with a d obtain e es where d2: "dropWhile is_json_ws cs = e # es"
      by (cases "dropWhile is_json_ws cs") auto
    note l2 = dropWhile_Cons_shorter [OF d2]
    show ?thesis
    proof (cases "e = CHR ''}''")
      case True
      with a d d2 obj l2 show ?thesis by auto
    next
      case False
      with a d d2 obj have "parse_members n [] (e # es) = Inr (v, r)" by simp
      from shorterD [OF M this] l2 show ?thesis by simp
    qed
  next
    case arr
    with a d obtain e es where d2: "dropWhile is_json_ws cs = e # es"
      by (cases "dropWhile is_json_ws cs") auto
    note l2 = dropWhile_Cons_shorter [OF d2]
    show ?thesis
    proof (cases "e = CHR '']''")
      case True
      with a d d2 arr l2 show ?thesis by auto
    next
      case False
      with a d d2 arr have "parse_elements n [] (e # es) = Inr (v, r)" by simp
      from shorterD [OF E this] l2 show ?thesis by simp
    qed
  next
    case str
    with a d obtain x where "parse_chars [] cs = Inr (x, r)"
      by (auto split: sum.splits)
    from parse_chars_shorter [OF this] show ?thesis by simp
  next
    case other
    with a d have "literal ''true'' (JBool True) (c # cs) = Inr (v, r) \<or>
        literal ''false'' (JBool False) (c # cs) = Inr (v, r) \<or>
        literal ''null'' JNull (c # cs) = Inr (v, r) \<or> parse_number (c # cs) = Inr (v, r)"
      by (auto split: if_splits)
    then show ?thesis
      using literal_shorter [of _ _ "c # cs" v r] parse_number_shorter [of "c # cs" v r] by auto
  qed
  with l show "length r < length s" by simp
qed

lemma shorter_elements:
  assumes V: "\<And>s. shorter (parse_value n s) s"
    and E: "\<And>s acc. shorter (parse_elements n acc s) s"
  shows "shorter (parse_elements (Suc n) acc s) s"
proof (rule shorterI)
  fix v r
  assume a: "parse_elements (Suc n) acc s = Inr (v, r)"
  then obtain x t where v: "parse_value n s = Inr (x, t)"
    by (cases "parse_value n s") auto
  note lv = shorterD [OF V v]
  from a v obtain c cs where d: "dropWhile is_json_ws t = c # cs"
    by (cases "dropWhile is_json_ws t") auto
  note l = dropWhile_Cons_shorter [OF d]
  show "length r < length s"
  proof (cases "c = CHR '']''")
    case True
    with a v d lv l show ?thesis by auto
  next
    case False
    with a v d have "parse_elements n (acc @ [x]) cs = Inr (v, r)"
      by (auto split: if_splits)
    from shorterD [OF E this] lv l show ?thesis by simp
  qed
qed

lemma shorter_members:
  assumes V: "\<And>s. shorter (parse_value n s) s"
    and M: "\<And>s acc. shorter (parse_members n acc s) s"
  shows "shorter (parse_members (Suc n) acc s) s"
proof (rule shorterI)
  fix v r
  assume a: "parse_members (Suc n) acc s = Inr (v, r)"
  then obtain q ks where d: "dropWhile is_json_ws s = q # ks"
    by (cases "dropWhile is_json_ws s") auto
  note l = dropWhile_Cons_shorter [OF d]
  from a d have q: "q = CHR 0x22"
    by (auto split: if_splits)
  with a d obtain k t where k: "parse_chars [] ks = Inr (k, t)"
    by (cases "parse_chars [] ks") auto
  note lk = parse_chars_shorter [OF k]
  from a d q k obtain c cs where d2: "dropWhile is_json_ws t = c # cs"
    by (cases "dropWhile is_json_ws t") auto
  note l2 = dropWhile_Cons_shorter [OF d2]
  from a d q k d2 have c: "c = CHR '':''"
    by (auto split: if_splits)
  with a d q k d2 obtain x t' where v: "parse_value n cs = Inr (x, t')"
    by (cases "parse_value n cs") auto
  note lv = shorterD [OF V v]
  from a d q k d2 c v obtain e es where d3: "dropWhile is_json_ws t' = e # es"
    by (cases "dropWhile is_json_ws t'") auto
  note l3 = dropWhile_Cons_shorter [OF d3]
  show "length r < length s"
  proof (cases "e = CHR ''}''")
    case True
    with a d q k d2 c v d3 l lk l2 lv l3 show ?thesis by auto
  next
    case False
    with a d q k d2 c v d3 have "parse_members n (acc @ [(k, x)]) es = Inr (v, r)"
      by (auto split: if_splits)
    from shorterD [OF M this] l lk l2 lv l3 show ?thesis by simp
  qed
qed

lemma parsers_shorter:
  "(\<forall>s. shorter (parse_value n s) s) \<and>
   (\<forall>s acc. shorter (parse_elements n acc s) s) \<and>
   (\<forall>s acc. shorter (parse_members n acc s) s)"
proof (induction n)
  case 0
  show ?case by (simp add: shorter_def)
next
  case (Suc n)
  then show ?case
    by (intro conjI allI shorter_value shorter_elements shorter_members) blast+
qed

lemma parse_value_shorter: "parse_value n s = Inr (v, r) \<Longrightarrow> length r < length s"
  using parsers_shorter [of n] by (blast dest: shorterD)

lemma fuel_value:
  assumes E: "\<And>s acc. 2 * length s + 1 < n \<Longrightarrow> parse_elements n acc s \<noteq> Inl OutOfFuel"
    and M: "\<And>s acc. 2 * length s + 1 < n \<Longrightarrow> parse_members n acc s \<noteq> Inl OutOfFuel"
    and f: "2 * length s < Suc n"
  shows "parse_value (Suc n) s \<noteq> Inl OutOfFuel"
proof (cases "dropWhile is_json_ws s")
  case Nil
  then show ?thesis by (simp del: dropWhile_eq_Nil_conv)
next
  case (Cons c cs)
  note l = dropWhile_Cons_shorter [OF Cons]
  have inner: "parse_elements n [] (e # es) \<noteq> Inl OutOfFuel \<and> parse_members n [] (e # es) \<noteq> Inl OutOfFuel"
    if "dropWhile is_json_ws cs = e # es" for e es
  proof -
    from dropWhile_Cons_shorter [OF that] l f have "2 * length (e # es) + 1 < n"
      by simp
    then show ?thesis
      using E M by blast
  qed
  show ?thesis
    using Cons inner parse_chars_fuel [of "[]" cs] literal_fuel parse_number_fuel
    by (auto split: list.splits sum.splits)
qed

lemma fuel_elements:
  assumes V: "\<And>s. 2 * length s < n \<Longrightarrow> parse_value n s \<noteq> Inl OutOfFuel"
    and E: "\<And>s acc. 2 * length s + 1 < n \<Longrightarrow> parse_elements n acc s \<noteq> Inl OutOfFuel"
    and f: "2 * length s + 1 < Suc n"
  shows "parse_elements (Suc n) acc s \<noteq> Inl OutOfFuel"
proof (cases "parse_value n s")
  case (Inl e)
  with V [of s] f show ?thesis by auto
next
  case (Inr p)
  obtain x t where p: "p = (x, t)" by (cases p)
  note lv = parse_value_shorter [OF Inr [unfolded p]]
  have "parse_elements n (acc @ [x]) cs \<noteq> Inl OutOfFuel" if "dropWhile is_json_ws t = c # cs" for c cs
  proof -
    from dropWhile_Cons_shorter [OF that] lv f have "2 * length cs + 1 < n"
      by simp
    then show ?thesis by (rule E)
  qed
  with Inr p show ?thesis
    by (auto split: list.splits)
qed

lemma fuel_members:
  assumes V: "\<And>s. 2 * length s < n \<Longrightarrow> parse_value n s \<noteq> Inl OutOfFuel"
    and M: "\<And>s acc. 2 * length s + 1 < n \<Longrightarrow> parse_members n acc s \<noteq> Inl OutOfFuel"
    and f: "2 * length s + 1 < Suc n"
  shows "parse_members (Suc n) acc s \<noteq> Inl OutOfFuel"
proof (cases "dropWhile is_json_ws s")
  case Nil
  then show ?thesis by (simp del: dropWhile_eq_Nil_conv)
next
  case (Cons q ks)
  note l = dropWhile_Cons_shorter [OF Cons]
  show ?thesis
  proof (cases "parse_chars [] ks")
    case (Inl e)
    with Cons parse_chars_fuel [of "[]" ks] show ?thesis by auto
  next
    case (Inr p)
    obtain k t where p: "p = (k, t)" by (cases p)
    note lk = parse_chars_shorter [OF Inr [unfolded p]]
    have after: "parse_value n cs \<noteq> Inl OutOfFuel \<and>
        (\<forall>x t' e es. parse_value n cs = Inr (x, t') \<longrightarrow> dropWhile is_json_ws t' = e # es \<longrightarrow>
           parse_members n (acc @ [(k, x)]) es \<noteq> Inl OutOfFuel)"
      if d2: "dropWhile is_json_ws t = c # cs" for c cs
    proof (intro conjI allI impI)
      note l2 = dropWhile_Cons_shorter [OF d2]
      from l lk l2 f show "parse_value n cs \<noteq> Inl OutOfFuel"
        by (intro V) simp
      fix x t' e es
      assume v: "parse_value n cs = Inr (x, t')" and d3: "dropWhile is_json_ws t' = e # es"
      from parse_value_shorter [OF v] dropWhile_Cons_shorter [OF d3] l lk l2 f
      show "parse_members n (acc @ [(k, x)]) es \<noteq> Inl OutOfFuel"
        by (intro M) simp
    qed
    show ?thesis
      using Cons Inr p after
      by (auto split: list.splits sum.splits)
  qed
qed

lemma parsers_fuel:
  "(\<forall>s. 2 * length s < n \<longrightarrow> parse_value n s \<noteq> Inl OutOfFuel) \<and>
   (\<forall>s acc. 2 * length s + 1 < n \<longrightarrow> parse_elements n acc s \<noteq> Inl OutOfFuel) \<and>
   (\<forall>s acc. 2 * length s + 1 < n \<longrightarrow> parse_members n acc s \<noteq> Inl OutOfFuel)"
proof (induction n)
  case 0
  show ?case by simp
next
  case (Suc n)
  then show ?case
    by (intro conjI allI impI fuel_value fuel_elements fuel_members) blast+
qed

lemma JSON_parse_fuel: "JSON_parse s \<noteq> Inl OutOfFuel"
proof -
  have "parse_value (Suc (2 * length s)) s \<noteq> Inl OutOfFuel"
    using parsers_fuel [of "Suc (2 * length s)"] by simp
  then show ?thesis
    by (auto simp: JSON_parse_def split: sum.splits)
qed

lemma blame_uri_round_trip_of_plain_path:
  "bindE (toBlameUri example_host ''/repo'' (example_commit ''src/app.ts'') example_range 1 10)
     fromBlameUri =
   Inr \<lparr>u_fileName = ''/repo/src/app.ts'', u_sha = ''3b7c2f1a'', u_range = example_range,
        u_index = 1\<rparr>"
  by code_simp

section \<open>The claims\<close>

text \<open>
  C1. On a cache miss \<^verbatim>\<open>blameFile\<close> asks the collaborator for the text of the file and
  makes a pending promise; when the text \<open>data\<close> arrives, the promise is fulfilled with
  the parse of \<open>data\<close>. That result has one line record per match of the pattern, in the
  order of the matches, and its commit map has one key per distinct hash among the
  matches, in the order of first appearance, each with the commit record of the first
  match that bears the hash.
\<close>

theorem blameFile_miss_parses_every_match:
  assumes "Map_get (files w) f = None"
  shows "case blameFile f w of (p, w1) \<Rightarrow>
           gitBlameCalls w1 = gitBlameCalls w @ [f] \<and>
           await w1 p = Pending \<and>
           await (gitBlame_settles p (Inr data) w1) p = Fulfilled (parseBlame data) \<and>
           lines (parseBlame data) = map line_of_match (execAll data 0) \<and>
           map fst (commits (parseBlame data)) = first_occurrences (map (\<lambda>m. m ! 1) (execAll data 0)) \<and>
           distinct (map fst (commits (parseBlame data))) \<and>
           (\<forall>h. Map_get (commits (parseBlame data)) h =
                  map_option commit_of_match (find (\<lambda>m. m ! 1 = h) (execAll data 0)))"
proof -
  have "distinct (map fst (commits (parseBlame data)))"
    by (simp only: parseBlame_keys distinct_first_occurrences)
  then show ?thesis
    by (simp add: blameFile_miss [OF assms] await_def gitBlame_settles_def parseBlame_lines
        parseBlame_keys parseBlame_get)
qed

text \<open>
  The three example lines: three line records, two commits.
\<close>

theorem blameFile_miss_parses_every_match_witness:
  "Map_get (files constructor) ''src/app.ts'' = None \<and>
   fst (blameFile ''src/app.ts'' constructor) = 0 \<and>
   lines (parseBlame example_text) =
     [\<lparr>l_sha = ''3b7c2f1a'', l_originalLine = Num 0, l_line = Num 0\<rparr>,
      \<lparr>l_sha = ''9e1d4c55'', l_originalLine = Num 6, l_line = Num 1\<rparr>,
      \<lparr>l_sha = ''3b7c2f1a'', l_originalLine = Num 2, l_line = Num 2\<rparr>] \<and>
   map fst (commits (parseBlame example_text)) = [''3b7c2f1a'', ''9e1d4c55'']"
proof -
  have miss: "Map_get (files constructor) ''src/app.ts'' = None"
    by (simp add: constructor_def Map_get_def)
  have p: "fst (blameFile ''src/app.ts'' constructor) = 0"
    by (simp add: blameFile_miss [OF miss]) (simp add: constructor_def)
  from blameFile_miss_parses_every_match [OF miss, of example_text]
  have "lines (parseBlame example_text) = map line_of_match (execAll example_text 0)"
    and "map fst (commits (parseBlame example_text)) =
      first_occurrences (map (\<lambda>m. m ! 1) (execAll example_text 0))"
    by (simp_all split: prod.splits)
  then show ?thesis
    using miss p by (simp only: example_text_lines example_text_keys simp_thms)
qed

text \<open>
  C2. Once \<^verbatim>\<open>blameFile\<close> has returned promise \<open>p\<close> for a file, then after any events
  that do not invalidate the file's entry a further call returns the same \<open>p\<close> and
  leaves the world as it is, and the collaborator has not been called for that file in
  between or by the further call.
\<close>

theorem blameFile_memoized:
  assumes "blameFile f w = (p, w1)"
    and "\<forall>e\<in>set evs. \<not> invalidates f e"
  shows "blameFile f (run evs w1) = (p, run evs w1) \<and>
         filter (\<lambda>g. g = f) (gitBlameCalls (snd (blameFile f (run evs w1)))) =
           filter (\<lambda>g. g = f) (gitBlameCalls w1)"
proof -
  have c: "Map_get (files w1) f = Some p"
    using assms(1) by (rule blameFile_cached)
  then have "Map_get (files (run evs w1)) f = Some p"
    using assms(2) by (rule run_keeps_entry)
  then have "blameFile f (run evs w1) = (p, run evs w1)"
    by (rule blameFile_hit)
  then show ?thesis
    using run_calls [OF c assms(2)] by simp
qed

text \<open>
  A first call on a fresh provider, other traffic, and the second call.
\<close>

theorem blameFile_memoized_witness:
  "blameFile ''src/app.ts'' constructor =
     (0, \<lparr>files = [(''src/app.ts'', Some 0)], promises = [Pending],
          gitBlameCalls = [''src/app.ts''], subscriptions = True\<rparr>) \<and>
   fst (blameFile ''src/app.ts'' (run example_events (snd (blameFile ''src/app.ts'' constructor)))) = 0 \<and>
   filter (\<lambda>g. g = ''src/app.ts'')
     (gitBlameCalls (snd (blameFile ''src/app.ts''
        (run example_events (snd (blameFile ''src/app.ts'' constructor)))))) = [''src/app.ts'']"
proof -
  have b: "blameFile ''src/app.ts'' constructor =
     (0, \<lparr>files = [(''src/app.ts'', Some 0)], promises = [Pending],
          gitBlameCalls = [''src/app.ts''], subscriptions = True\<rparr>)"
    by (simp add: blameFile_def constructor_def Map_get_def)
  have n: "\<forall>e\<in>set example_events. \<not> invalidates ''src/app.ts'' e"
    by (simp add: example_events_def)
  note m = blameFile_memoized [OF b n]
  have "fst (blameFile ''src/app.ts'' (run example_events (snd (blameFile ''src/app.ts'' constructor)))) = 0"
    using conjunct1 [OF m] by (simp add: b)
  moreover have "filter (\<lambda>g. g = ''src/app.ts'')
     (gitBlameCalls (snd (blameFile ''src/app.ts''
        (run example_events (snd (blameFile ''src/app.ts'' constructor)))))) = [''src/app.ts'']"
    using conjunct2 [OF m] by (simp add: b)
  ultimately show ?thesis
    using b by simp
qed

text \<open>
  C3. While the subscriptions are in place, a closed and a changed document both run
  \<^verbatim>\<open>_removeFile\<close> on the document's file. After it the file has no entry, whatever was
  there; without an entry nothing changes; the entries of other files are as before; and
  the next \<^verbatim>\<open>blameFile\<close> for the file makes a new promise and calls the collaborator.
\<close>

theorem invalidation_removes_entry:
  "(subscriptions w \<longrightarrow>
      onDidCloseTextDocument d w = removeFile (fileName d) w \<and>
      onDidChangeTextDocument e w = removeFile (fileName (document e)) w) \<and>
   \<not> Map_has (files (removeFile f w)) f \<and>
   Map_get (files (removeFile f w)) f = None \<and>
   (\<not> Map_has (files w) f \<longrightarrow> removeFile f w = w) \<and>
   (\<forall>g. g \<noteq> f \<longrightarrow>
      Map_has (files (removeFile f w)) g = Map_has (files w) g \<and>
      Map_get (files (removeFile f w)) g = Map_get (files w) g) \<and>
   fst (blameFile f (removeFile f w)) = length (promises w) \<and>
   gitBlameCalls (snd (blameFile f (removeFile f w))) = gitBlameCalls w @ [f]"
  by (simp add: invalidation_removes_entry_aux onDidCloseTextDocument_def onDidChangeTextDocument_def)
     (simp add: removeFile_def Map_has_Map_delete Map_get_Map_delete Map_delete_absent)

text \<open>
  With two files cached, and on a fresh provider where there is nothing to remove.
\<close>

theorem invalidation_removes_entry_witness:
  "subscriptions example_world \<and>
   onDidCloseTextDocument \<lparr>fileName = ''src/app.ts''\<rparr> example_world =
     removeFile ''src/app.ts'' example_world \<and>
   onDidChangeTextDocument \<lparr>document = \<lparr>fileName = ''src/app.ts''\<rparr>\<rparr> example_world =
     removeFile ''src/app.ts'' example_world \<and>
   Map_has (files example_world) ''src/app.ts'' \<and>
   \<not> Map_has (files (removeFile ''src/app.ts'' example_world)) ''src/app.ts'' \<and>
   \<not> Map_has (files constructor) ''src/app.ts'' \<and>
   removeFile ''src/app.ts'' constructor = constructor \<and>
   Map_get (files (removeFile ''src/app.ts'' example_world)) ''src/other.ts'' = Some 0 \<and>
   fst (blameFile ''src/app.ts'' (removeFile ''src/app.ts'' example_world)) = 2 \<and>
   gitBlameCalls (snd (blameFile ''src/app.ts'' (removeFile ''src/app.ts'' example_world))) =
     [''src/other.ts'', ''src/app.ts'', ''src/app.ts'']"
proof -
  have s: "subscriptions example_world" and h: "Map_has (files example_world) ''src/app.ts''"
    and g: "Map_get (files example_world) ''src/other.ts'' = Some 0"
    and l: "length (promises example_world) = 2"
    and c: "gitBlameCalls example_world = [''src/other.ts'', ''src/app.ts'']"
    by (simp_all add: example_world_eq Map_has_def Map_get_def)
  have n: "\<not> Map_has (files constructor) ''src/app.ts''"
    by (simp add: constructor_def Map_has_def)
  have d: "''src/other.ts'' \<noteq> ''src/app.ts''"
    by simp
  note a = invalidation_removes_entry [of example_world "\<lparr>fileName = ''src/app.ts''\<rparr>"
      "\<lparr>document = \<lparr>fileName = ''src/app.ts''\<rparr>\<rparr>" "''src/app.ts''"]
  note b = invalidation_removes_entry [of constructor "\<lparr>fileName = ''src/app.ts''\<rparr>"
      "\<lparr>document = \<lparr>fileName = ''src/app.ts''\<rparr>\<rparr>" "''src/app.ts''"]
  from a s have "onDidCloseTextDocument \<lparr>fileName = ''src/app.ts''\<rparr> example_world =
       removeFile ''src/app.ts'' example_world"
    and "onDidChangeTextDocument \<lparr>document = \<lparr>fileName = ''src/app.ts''\<rparr>\<rparr> example_world =
       removeFile ''src/app.ts'' example_world"
    by simp_all
  moreover from a have "\<not> Map_has (files (removeFile ''src/app.ts'' example_world)) ''src/app.ts''"
    by blast
  moreover from b n have "removeFile ''src/app.ts'' constructor = constructor"
    by blast
  moreover from a d g have "Map_get (files (removeFile ''src/app.ts'' example_world)) ''src/other.ts'' = Some 0"
    by metis
  moreover from a l c have "fst (blameFile ''src/app.ts'' (removeFile ''src/app.ts'' example_world)) = 2"
    and "gitBlameCalls (snd (blameFile ''src/app.ts'' (removeFile ''src/app.ts'' example_world))) =
     [''src/other.ts'', ''src/app.ts'', ''src/app.ts'']"
    by simp_all
  ultimately show ?thesis
    using s h n by simp
qed

text \<open>
  C4. \<^verbatim>\<open>getBlameForRange\<close> changes the world as \<^verbatim>\<open>blameFile\<close> does (not at all when the
  file is cached) and its promise follows the promise \<open>p\<close> of \<^verbatim>\<open>blameFile\<close>: in a later
  world in which \<open>p\<close> is fulfilled with a blame result of at least one line record, it is
  fulfilled with the line records at the indices of the line sequence from the start line
  to the end line of the range, both included, and a commit map whose keys are the hashes
  of those records, each once, in the order of first appearance among them, with the
  values the full commit map has for them.
\<close>

theorem getBlameForRange_slices:
  assumes "blameFile f w = (p, w1)"
    and "w' = run evs w1"
    and "await w' p = Fulfilled b"
    and "lines b \<noteq> []"
  shows "\<exists>res. snd (getBlameForRange f r w) = w1 \<and>
           await_chained w' (fst (getBlameForRange f r w)) = Fulfilled res \<and>
           lines res = inclusive_rows (lines b) (line (r_start r)) (line (r_end r)) \<and>
           map fst (commits res) = first_occurrences (map l_sha (lines res)) \<and>
           set (map fst (commits res)) = l_sha ` set (lines res) \<and>
           distinct (map fst (commits res)) \<and>
           (\<forall>h. Map_get (commits res) h =
                  (if h \<in> l_sha ` set (lines res) then Map_get (commits b) h else None))"
proof -
  let ?res = "getBlameForRange_callback r b"
  have k: "map fst (commits ?res) = first_occurrences (map l_sha (lines ?res))"
    using assms(4) by (rule callback_keys)
  have "set (map fst (commits ?res)) = l_sha ` set (lines ?res)"
    by (simp only: k set_first_occurrences list.set_map)
  moreover have "distinct (map fst (commits ?res))"
    by (simp only: k distinct_first_occurrences)
  moreover have "await_chained w' (fst (getBlameForRange f r w)) = Fulfilled ?res"
    by (simp add: getBlameForRange_eq [OF assms(1)] assms(3))
  moreover have "snd (getBlameForRange f r w) = w1"
    by (simp add: getBlameForRange_eq [OF assms(1)])
  ultimately show ?thesis
    using k callback_lines [OF assms(4), of r] callback_get [OF assms(4), of r] by blast
qed

text \<open>
  The cached example, rows 1 to 2 of its three lines.
\<close>

theorem getBlameForRange_slices_witness:
  "blameFile ''src/app.ts'' example_resolved = (0, example_resolved) \<and>
   await example_resolved 0 = Fulfilled (parseBlame example_text) \<and>
   lines (parseBlame example_text) \<noteq> [] \<and>
   (\<exists>res. await_chained example_resolved
             (fst (getBlameForRange ''src/app.ts'' example_range example_resolved)) = Fulfilled res \<and>
          lines res =
            [\<lparr>l_sha = ''9e1d4c55'', l_originalLine = Num 6, l_line = Num 1\<rparr>,
             \<lparr>l_sha = ''3b7c2f1a'', l_originalLine = Num 2, l_line = Num 2\<rparr>] \<and>
          map fst (commits res) = [''9e1d4c55'', ''3b7c2f1a''])"
proof -
  have c: "Map_get (files example_resolved) ''src/app.ts'' = Some 0"
    and a: "await example_resolved 0 = Fulfilled (parseBlame example_text)"
    by (simp_all add: example_resolved_eq Map_get_def await_def)
  have n: "lines (parseBlame example_text) \<noteq> []"
    by (simp add: example_text_parse)
  have rows: "inclusive_rows (lines (parseBlame example_text)) (line (r_start example_range))
        (line (r_end example_range)) =
      [\<lparr>l_sha = ''9e1d4c55'', l_originalLine = Num 6, l_line = Num 1\<rparr>,
       \<lparr>l_sha = ''3b7c2f1a'', l_originalLine = Num 2, l_line = Num 2\<rparr>]"
    by (simp add: example_text_parse example_range_def inclusive_rows_def upt_rec)
  have firsts: "first_occurrences [''9e1d4c55'', ''3b7c2f1a''] = [''9e1d4c55'', ''3b7c2f1a'']"
    by (simp add: first_occurrences_def)
  have hit: "blameFile ''src/app.ts'' example_resolved = (0, example_resolved)"
    using c by (rule blameFile_hit)
  have now: "example_resolved = run [] example_resolved"
    by (simp add: run_Nil)
  from getBlameForRange_slices [OF hit now a n, of example_range] obtain res where
    "await_chained example_resolved
       (fst (getBlameForRange ''src/app.ts'' example_range example_resolved)) = Fulfilled res"
    "lines res = inclusive_rows (lines (parseBlame example_text)) (line (r_start example_range))
        (line (r_end example_range))"
    "map fst (commits res) = first_occurrences (map l_sha (lines res))"
    by blast
  then show ?thesis
    using hit a n by (simp add: rows firsts)
qed

text \<open>
  C5. The promise of \<^verbatim>\<open>getBlameForShaRange\<close> follows the promise \<open>p\<close> of
  \<^verbatim>\<open>blameFile\<close>: in a later world in which \<open>p\<close> is fulfilled with a blame result, it is
  fulfilled with what the commit map has for the hash and the line records of that hash
  among the rows of the range; for a hash that is no key of the commit map the commit is
  \<^verbatim>\<open>undefined\<close> and the promise is still fulfilled.
\<close>

theorem getBlameForShaRange_filters:
  assumes "blameFile f w = (p, w1)"
    and "w' = run evs w1"
    and "await w' p = Fulfilled b"
  shows "snd (getBlameForShaRange f h r w) = w1 \<and>
         await_chained w' (fst (getBlameForShaRange f h r w)) =
           Fulfilled \<lparr>sr_commit = Map_get (commits b) h,
                      sr_lines = filter (\<lambda>l. l_sha l = h)
                        (inclusive_rows (lines b) (line (r_start r)) (line (r_end r)))\<rparr> \<and>
         (\<not> Map_has (commits b) h \<longrightarrow>
            await_chained w' (fst (getBlameForShaRange f h r w)) =
              Fulfilled \<lparr>sr_commit = None,
                         sr_lines = filter (\<lambda>l. l_sha l = h)
                           (inclusive_rows (lines b) (line (r_start r)) (line (r_end r)))\<rparr>)"
  by (simp add: getBlameForShaRange_eq [OF assms(1)] assms(3) getBlameForShaRange_callback_def
      slice_rows Map_get_not_has)

text \<open>
  A hash of the example and a hash the example does not have.
\<close>

theorem getBlameForShaRange_filters_witness:
  "blameFile ''src/app.ts'' example_resolved = (0, example_resolved) \<and>
   await example_resolved 0 = Fulfilled (parseBlame example_text) \<and>
   await_chained example_resolved
     (fst (getBlameForShaRange ''src/app.ts'' ''3b7c2f1a'' example_range example_resolved)) =
     Fulfilled \<lparr>sr_commit = Some \<lparr>c_sha = ''3b7c2f1a'', c_fileName = ''src/app.ts'',
                   c_author = ''Eric Amodio'', c_date = NewDate ''2016-08-31 02:15:06 -0400''\<rparr>,
                sr_lines = [\<lparr>l_sha = ''3b7c2f1a'', l_originalLine = Num 2, l_line = Num 2\<rparr>]\<rparr> \<and>
   \<not> Map_has (commits (parseBlame example_text)) ''0badc0de'' \<and>
   await_chained example_resolved
     (fst (getBlameForShaRange ''src/app.ts'' ''0badc0de'' example_range example_resolved)) =
     Fulfilled \<lparr>sr_commit = None, sr_lines = []\<rparr>"
proof -
  have c: "Map_get (files example_resolved) ''src/app.ts'' = Some 0"
    and a: "await example_resolved 0 = Fulfilled (parseBlame example_text)"
    by (simp_all add: example_resolved_eq Map_get_def await_def)
  have rows: "inclusive_rows (lines (parseBlame example_text)) (line (r_start example_range))
        (line (r_end example_range)) =
      [\<lparr>l_sha = ''9e1d4c55'', l_originalLine = Num 6, l_line = Num 1\<rparr>,
       \<lparr>l_sha = ''3b7c2f1a'', l_originalLine = Num 2, l_line = Num 2\<rparr>]"
    by (simp add: example_text_parse example_range_def inclusive_rows_def upt_rec)
  have g: "Map_get (commits (parseBlame example_text)) ''3b7c2f1a'' =
      Some \<lparr>c_sha = ''3b7c2f1a'', c_fileName = ''src/app.ts'',
             c_author = ''Eric Amodio'', c_date = NewDate ''2016-08-31 02:15:06 -0400''\<rparr>"
    and u: "\<not> Map_has (commits (parseBlame example_text)) ''0badc0de''"
    by (simp_all add: example_text_parse Map_get_def Map_has_def)
  have hit: "blameFile ''src/app.ts'' example_resolved = (0, example_resolved)"
    using c by (rule blameFile_hit)
  have now: "example_resolved = run [] example_resolved"
    by (simp add: run_Nil)
  from getBlameForShaRange_filters [OF hit now a, of "''3b7c2f1a''" example_range]
  have known: "await_chained example_resolved
     (fst (getBlameForShaRange ''src/app.ts'' ''3b7c2f1a'' example_range example_resolved)) =
     Fulfilled \<lparr>sr_commit = Some \<lparr>c_sha = ''3b7c2f1a'', c_fileName = ''src/app.ts'',
                   c_author = ''Eric Amodio'', c_date = NewDate ''2016-08-31 02:15:06 -0400''\<rparr>,
                sr_lines = [\<lparr>l_sha = ''3b7c2f1a'', l_originalLine = Num 2, l_line = Num 2\<rparr>]\<rparr>"
    by (simp add: rows g)
  from getBlameForShaRange_filters [OF hit now a, of "''0badc0de''" example_range]
  have "\<not> Map_has (commits (parseBlame example_text)) ''0badc0de'' \<longrightarrow>
     await_chained example_resolved
       (fst (getBlameForShaRange ''src/app.ts'' ''0badc0de'' example_range example_resolved)) =
       Fulfilled \<lparr>sr_commit = None,
                  sr_lines = filter (\<lambda>l. l_sha l = ''0badc0de'')
                    (inclusive_rows (lines (parseBlame example_text)) (line (r_start example_range))
                       (line (r_end example_range)))\<rparr>"
    by blast
  from mp [OF this u]
  have unknown: "await_chained example_resolved
     (fst (getBlameForShaRange ''src/app.ts'' ''0badc0de'' example_range example_resolved)) =
     Fulfilled \<lparr>sr_commit = None, sr_lines = []\<rparr>"
    by (simp add: rows)
  show ?thesis
    using hit a known u unknown by simp
qed

text \<open>
  C6. A cache miss makes promise \<open>p\<close>; when the collaborator fails with \<open>ex\<close>, \<open>p\<close>
  is rejected with \<open>ex\<close> and stays so whatever happens later, for whoever holds \<open>p\<close> or a
  promise chained to it; as long as nothing invalidates the file, \<^verbatim>\<open>blameFile\<close> keeps
  returning \<open>p\<close> without calling the collaborator; after \<^verbatim>\<open>_removeFile\<close> the next call
  makes another promise and calls the collaborator again.
\<close>

theorem collaborator_failure_stays_cached:
  assumes "Map_get (files w) f = None"
    and "blameFile f w = (p, w1)"
    and "\<forall>e\<in>set evs1. \<not> invalidates f e \<and> (\<forall>out. e \<noteq> Settles p out)"
    and "w2 = gitBlame_settles p (Inl ex) (run evs1 w1)"
  shows "await (run evs2 w2) p = Rejected ex \<and>
         await_chained (run evs2 w2) (Then p callback) = Rejected ex \<and>
         ((\<forall>e\<in>set evs2. \<not> invalidates f e) \<longrightarrow>
            blameFile f (run evs2 w2) = (p, run evs2 w2)) \<and>
         fst (blameFile f (removeFile f (run evs2 w2))) \<noteq> p \<and>
         gitBlameCalls (snd (blameFile f (removeFile f (run evs2 w2)))) =
           gitBlameCalls (run evs2 w2) @ [f]"
proof -
  have p: "p = length (promises w)" and w1: "promises w1 = promises w @ [Pending]"
    using assms(1,2) by (auto simp: blameFile_miss)
  have c1: "Map_get (files w1) f = Some p"
    using assms(2) by (rule blameFile_cached)
  have "p < length (promises w1)" "promises w1 ! p = Pending"
    by (simp_all add: p w1)
  then have pend: "p < length (promises (run evs1 w1)) \<and> promises (run evs1 w1) ! p = Pending"
    using assms(3) by (intro run_keeps_pending) auto
  have c2: "Map_get (files w2) f = Some p"
    using run_keeps_entry [OF c1, of evs1] assms(3) by (simp add: assms(4) gitBlame_settles_def)
  have r2: "p < length (promises w2)" "promises w2 ! p = Rejected ex"
    using pend by (simp_all add: assms(4) gitBlame_settles_def)
  then have "promises w2 ! p \<noteq> Pending"
    by simp
  from run_keeps_settled [OF r2(1) this, of evs2] r2(2)
  have r3: "p < length (promises (run evs2 w2))" "promises (run evs2 w2) ! p = Rejected ex"
    by simp_all
  have hit: "(\<forall>e\<in>set evs2. \<not> invalidates f e) \<longrightarrow> blameFile f (run evs2 w2) = (p, run evs2 w2)"
    using run_keeps_entry [OF c2, of evs2] by (auto intro: blameFile_hit)
  have fresh: "fst (blameFile f (removeFile f (run evs2 w2))) = length (promises (run evs2 w2))"
    and calls: "gitBlameCalls (snd (blameFile f (removeFile f (run evs2 w2)))) =
           gitBlameCalls (run evs2 w2) @ [f]"
    using invalidation_removes_entry_aux [of f "run evs2 w2"] by simp_all
  show ?thesis
    using r3 hit fresh calls by (simp add: await_def)
qed

text \<open>
  A failure for \<^verbatim>\<open>src/app.ts\<close> amid other traffic.
\<close>

theorem collaborator_failure_stays_cached_witness:
  "Map_get (files constructor) ''src/app.ts'' = None \<and>
   await (run [CallBlameFile ''src/app.ts'', Settles 0 (Inr example_text)]
            (gitBlame_settles 0 (Inl ''fatal: no such path'')
               (run [CallBlameFile ''src/other.ts''] (snd (blameFile ''src/app.ts'' constructor))))) 0 =
     Rejected ''fatal: no such path'' \<and>
   fst (blameFile ''src/app.ts''
         (run [CallBlameFile ''src/app.ts'', Settles 0 (Inr example_text)]
            (gitBlame_settles 0 (Inl ''fatal: no such path'')
               (run [CallBlameFile ''src/other.ts''] (snd (blameFile ''src/app.ts'' constructor)))))) = 0"
proof -
  have miss: "Map_get (files constructor) ''src/app.ts'' = None"
    by (simp add: constructor_def Map_get_def)
  have b: "blameFile ''src/app.ts'' constructor = (0, snd (blameFile ''src/app.ts'' constructor))"
    by (simp add: blameFile_miss [OF miss]) (simp add: constructor_def)
  have e1: "\<forall>e\<in>set [CallBlameFile ''src/other.ts'']. \<not> invalidates ''src/app.ts'' e \<and> (\<forall>out. e \<noteq> Settles 0 out)"
    by simp
  have e2: "\<forall>e\<in>set [CallBlameFile ''src/app.ts'', Settles 0 (Inr example_text)]. \<not> invalidates ''src/app.ts'' e"
    by simp
  note t = collaborator_failure_stays_cached [OF miss b e1 refl,
      where ex = "''fatal: no such path''"
        and ?evs2.0 = "[CallBlameFile ''src/app.ts'', Settles 0 (Inr example_text)]"
        and callback = id]
  from t e2 miss show ?thesis
    by simp
qed

text \<open>
  C7, as the code has it. The \<open>i\<close>-th match gives the \<open>i\<close>-th line record: the hash of
  the match and the numbers \<^verbatim>\<open>parseInt\<close> reads from groups 3 and 6, each minus one. The
  source path, author and timestamp of the match are not in the line record. The commit
  map has, under the hash, the trimmed path, trimmed author and date of the first match
  with that hash; they are those of the match itself when no earlier match has its hash.
\<close>

theorem matched_line_yields_records:
  assumes "i < length (execAll data 0)"
  shows "lines (parseBlame data) ! i =
           \<lparr>l_sha = execAll data 0 ! i ! 1,
            l_originalLine = jsminus (parseInt (execAll data 0 ! i ! 3)) 1,
            l_line = jsminus (parseInt (execAll data 0 ! i ! 6)) 1\<rparr> \<and>
         (\<exists>m'. find (\<lambda>m. m ! 1 = execAll data 0 ! i ! 1) (execAll data 0) = Some m' \<and>
               Map_get (commits (parseBlame data)) (execAll data 0 ! i ! 1) =
                 Some \<lparr>c_sha = execAll data 0 ! i ! 1, c_fileName = trim (m' ! 2),
                       c_author = trim (m' ! 4), c_date = NewDate (m' ! 5)\<rparr>) \<and>
         ((\<forall>k<i. execAll data 0 ! k ! 1 \<noteq> execAll data 0 ! i ! 1) \<longrightarrow>
            Map_get (commits (parseBlame data)) (execAll data 0 ! i ! 1) =
              Some \<lparr>c_sha = execAll data 0 ! i ! 1, c_fileName = trim (execAll data 0 ! i ! 2),
                    c_author = trim (execAll data 0 ! i ! 4),
                    c_date = NewDate (execAll data 0 ! i ! 5)\<rparr>)"
proof -
  let ?ms = "execAll data 0"
  let ?h = "?ms ! i ! 1"
  have l: "lines (parseBlame data) ! i = line_of_match (?ms ! i)"
    using assms by (simp add: parseBlame_lines)
  have "\<exists>m\<in>set ?ms. m ! 1 = ?h"
    using assms by (metis nth_mem)
  then obtain m' where f: "find (\<lambda>m. m ! 1 = ?h) ?ms = Some m'"
    by (cases "find (\<lambda>m. m ! 1 = ?h) ?ms") (auto simp: find_None_iff)
  then have h: "m' ! 1 = ?h"
    by (auto simp: find_Some_iff)
  have g: "Map_get (commits (parseBlame data)) ?h = Some (commit_of_match m')"
    by (simp only: parseBlame_get f option.map)
  have first: "(\<forall>k<i. ?ms ! k ! 1 \<noteq> ?h) \<longrightarrow> m' = ?ms ! i"
  proof
    assume n: "\<forall>k<i. ?ms ! k ! 1 \<noteq> ?h"
    have "find (\<lambda>m. m ! 1 = ?h) ?ms = Some (?ms ! i)"
      unfolding find_Some_iff using assms n by blast
    with f show "m' = ?ms ! i" by simp
  qed
  have c: "commit_of_match m' =
      \<lparr>c_sha = ?h, c_fileName = trim (m' ! 2), c_author = trim (m' ! 4), c_date = NewDate (m' ! 5)\<rparr>"
    unfolding commit_of_match_def h ..
  show ?thesis
  proof (intro conjI)
    show "lines (parseBlame data) ! i =
        \<lparr>l_sha = ?h, l_originalLine = jsminus (parseInt (?ms ! i ! 3)) 1,
         l_line = jsminus (parseInt (?ms ! i ! 6)) 1\<rparr>"
      unfolding l line_of_match_def ..
    show "\<exists>m'. find (\<lambda>m. m ! 1 = ?h) ?ms = Some m' \<and>
        Map_get (commits (parseBlame data)) ?h =
          Some \<lparr>c_sha = ?h, c_fileName = trim (m' ! 2), c_author = trim (m' ! 4),
                c_date = NewDate (m' ! 5)\<rparr>"
      using f g c by (intro exI [of _ m']) (simp only: simp_thms)
    show "(\<forall>k<i. ?ms ! k ! 1 \<noteq> ?h) \<longrightarrow>
        Map_get (commits (parseBlame data)) ?h =
          Some \<lparr>c_sha = ?h, c_fileName = trim (?ms ! i ! 2), c_author = trim (?ms ! i ! 4),
                c_date = NewDate (?ms ! i ! 5)\<rparr>"
    proof
      assume "\<forall>k<i. ?ms ! k ! 1 \<noteq> ?h"
      with first have "m' = ?ms ! i" by blast
      with g c show "Map_get (commits (parseBlame data)) ?h =
          Some \<lparr>c_sha = ?h, c_fileName = trim (?ms ! i ! 2), c_author = trim (?ms ! i ! 4),
                c_date = NewDate (?ms ! i ! 5)\<rparr>"
        by (simp only:)
    qed
  qed
qed

text \<open>
  The third and the first example line.
\<close>

theorem matched_line_yields_records_witness:
  "2 < length (execAll example_text 0) \<and>
   lines (parseBlame example_text) ! 2 =
     \<lparr>l_sha = ''3b7c2f1a'', l_originalLine = Num 2, l_line = Num 2\<rparr> \<and>
   Map_get (commits (parseBlame example_text)) ''3b7c2f1a'' =
     Some \<lparr>c_sha = ''3b7c2f1a'', c_fileName = ''src/app.ts'', c_author = ''Eric Amodio'',
           c_date = NewDate ''2016-08-31 02:15:06 -0400''\<rparr>"
proof -
  have n2: "2 < length (execAll example_text 0)" and n0: "0 < length (execAll example_text 0)"
    by (simp_all add: example_text_matches)
  have first: "\<forall>k<0. execAll example_text 0 ! k ! 1 \<noteq> execAll example_text 0 ! 0 ! 1"
    by simp
  have h: "execAll example_text 0 ! 0 ! 1 = ''3b7c2f1a''"
    by (simp add: example_text_matches)
  have l: "\<lparr>l_sha = execAll example_text 0 ! 2 ! 1,
            l_originalLine = jsminus (parseInt (execAll example_text 0 ! 2 ! 3)) 1,
            l_line = jsminus (parseInt (execAll example_text 0 ! 2 ! 6)) 1\<rparr> =
      \<lparr>l_sha = ''3b7c2f1a'', l_originalLine = Num 2, l_line = Num 2\<rparr>"
    unfolding example_text_matches by code_simp
  have c: "\<lparr>c_sha = execAll example_text 0 ! 0 ! 1,
            c_fileName = trim (execAll example_text 0 ! 0 ! 2),
            c_author = trim (execAll example_text 0 ! 0 ! 4),
            c_date = NewDate (execAll example_text 0 ! 0 ! 5)\<rparr> =
      \<lparr>c_sha = ''3b7c2f1a'', c_fileName = ''src/app.ts'', c_author = ''Eric Amodio'',
       c_date = NewDate ''2016-08-31 02:15:06 -0400''\<rparr>"
    unfolding example_text_matches by code_simp
  note t2 = matched_line_yields_records [OF n2]
  note t0 = matched_line_yields_records [OF n0]
  have "lines (parseBlame example_text) ! 2 =
      \<lparr>l_sha = ''3b7c2f1a'', l_originalLine = Num 2, l_line = Num 2\<rparr>"
    using conjunct1 [OF t2] by (simp only: l)
  moreover have "Map_get (commits (parseBlame example_text)) ''3b7c2f1a'' =
     Some \<lparr>c_sha = ''3b7c2f1a'', c_fileName = ''src/app.ts'', c_author = ''Eric Amodio'',
           c_date = NewDate ''2016-08-31 02:15:06 -0400''\<rparr>"
    using mp [OF conjunct2 [OF conjunct2 [OF t0]] first] unfolding c by (simp only: h)
  ultimately show ?thesis
    using n2 by simp
qed

text \<open>
  C7 as stated fails: in \<open>example_moved\<close> the second matched line names the source
  path \<^verbatim>\<open>src/b.ts\<close>, and the result holds that path nowhere; the commit record of its
  hash has the path of the first line.
\<close>

theorem later_line_of_a_commit_is_not_kept:
  "execAll example_moved 0 ! 1 ! 1 = ''3b7c2f1a'' \<and>
   execAll example_moved 0 ! 1 ! 2 = ''src/b.ts'' \<and>
   parseBlame example_moved =
     \<lparr>commits =
        [(''3b7c2f1a'', Some \<lparr>c_sha = ''3b7c2f1a'', c_fileName = ''src/a.ts'', c_author = ''Ada'',
            c_date = NewDate ''2016-08-31 02:15:06 -0400''\<rparr>)],
      lines =
        [\<lparr>l_sha = ''3b7c2f1a'', l_originalLine = Num 0, l_line = Num 0\<rparr>,
         \<lparr>l_sha = ''3b7c2f1a'', l_originalLine = Num 4, l_line = Num 1\<rparr>]\<rparr> \<and>
   Map_get (commits (parseBlame example_moved)) (execAll example_moved 0 ! 1 ! 1) \<noteq>
     Some (commit_of_match (execAll example_moved 0 ! 1))"
  by code_simp

text \<open>
  C8. In a world a provider can reach, for a cached and fulfilled blame result without
  line records the promise of \<^verbatim>\<open>getBlameForRange\<close> is fulfilled with that same result,
  whatever the range, and its commit map is empty.
\<close>

theorem getBlameForRange_empty_unchanged:
  assumes "w = run evs constructor"
    and "Map_get (files w) f = Some p"
    and "await w p = Fulfilled b"
    and "lines b = []"
  shows "snd (getBlameForRange f r w) = w \<and>
         await_chained w (fst (getBlameForRange f r w)) = Fulfilled b \<and>
         commits b = []"
proof -
  have pr: "produced w"
    unfolding assms(1) using produced_constructor by (rule produced_run)
  then have "p < length (promises w)"
    using assms(2) by (simp add: produced_def)
  with pr assms(3) obtain data where "b = parseBlame data"
    unfolding produced_def await_def by blast
  with assms(4) have "commits b = []"
    by (simp add: parseBlame_empty)
  then show ?thesis
    by (simp add: fst_getBlameForRange [OF assms(2)] assms(3) callback_empty [OF assms(4)])
qed

text \<open>
  A file whose attribution text is empty.
\<close>

theorem getBlameForRange_empty_unchanged_witness:
  "example_empty = run [CallBlameFile ''src/empty.ts'', Settles 0 (Inr '''')] constructor \<and>
   Map_get (files example_empty) ''src/empty.ts'' = Some 0 \<and>
   await example_empty 0 = Fulfilled \<lparr>commits = [], lines = []\<rparr> \<and>
   await_chained example_empty
     (fst (getBlameForRange ''src/empty.ts'' example_range example_empty)) =
     Fulfilled \<lparr>commits = [], lines = []\<rparr>"
proof -
  have c: "Map_get (files example_empty) ''src/empty.ts'' = Some 0"
    and a: "await example_empty 0 = Fulfilled \<lparr>commits = [], lines = []\<rparr>"
    by (simp_all add: example_empty_eq Map_get_def await_def empty_text_parse)
  have e: "lines \<lparr>commits = [], lines = []\<rparr> = []"
    by simp
  from getBlameForRange_empty_unchanged [OF example_empty_def c a e, of example_range]
  show ?thesis
    using c a by (simp add: example_empty_def)
qed

text \<open>
  C9 fails on the code. The attribution line \<open>example_sharp\<close> gives a commit whose file
  is \<^verbatim>\<open>src/c#/main.ts\<close>. In the identifier \<^verbatim>\<open>toBlameUri\<close> makes for it the
  \<^verbatim>\<open>#\<close> of the display path stands before the \<^verbatim>\<open>?\<close>, so the path of the identifier
  ends there, its query is empty and the payload is in the fragment; \<^verbatim>\<open>fromBlameUri\<close>
  hands the empty query to \<^verbatim>\<open>JSON.parse\<close>, which throws. (For \<^verbatim>\<open>src/app.ts\<close> the
  round trip gives the data back: \<open>blame_uri_round_trip_of_plain_path\<close>.)
\<close>

theorem blame_uri_round_trip_fails_on_hash_sign:
  "Map_get (commits (parseBlame example_sharp)) ''3b7c2f1a'' = Some (example_commit ''src/c#/main.ts'') \<and>
   bindE (toBlameUri example_host ''/repo'' (example_commit ''src/c#/main.ts'') example_range 1 10)
     (\<lambda>uri. Inr (path uri, query uri, fromBlameUri uri)) =
   Inr (''01. Eric Amodio, Aug 31, 2016 02:08am - src/c'', [], Inl SyntaxError)"
  by code_simp

text \<open>
  C10. In a world a provider can reach, every fulfilled blame result, and every result
  the callback of \<^verbatim>\<open>getBlameForRange\<close> makes from it, has the hash of each of its line
  records among the keys of its commit map.
\<close>

theorem lines_refer_to_commits:
  assumes "w = run evs constructor"
    and "p < length (promises w)"
    and "await w p = Fulfilled b"
  shows "blame_ok b \<and> blame_ok (getBlameForRange_callback r b)"
proof -
  have "produced w"
    unfolding assms(1) using produced_constructor by (rule produced_run)
  with assms(2,3) obtain data where "b = parseBlame data"
    unfolding produced_def await_def by blast
  then have "blame_ok b"
    by (simp add: parseBlame_ok)
  then show ?thesis
    by (simp add: callback_ok)
qed

text \<open>
  The example result and its rows 1 to 2.
\<close>

theorem lines_refer_to_commits_witness:
  "example_resolved = run [CallBlameFile ''src/app.ts'', Settles 0 (Inr example_text)] constructor \<and>
   0 < length (promises example_resolved) \<and>
   await example_resolved 0 = Fulfilled (parseBlame example_text) \<and>
   blame_ok (parseBlame example_text) \<and>
   blame_ok (getBlameForRange_callback example_range (parseBlame example_text))"
proof -
  have l: "0 < length (promises example_resolved)"
    and a: "await example_resolved 0 = Fulfilled (parseBlame example_text)"
    by (simp_all add: example_resolved_eq await_def)
  from lines_refer_to_commits [OF example_resolved_def l a, of example_range]
  show ?thesis
    using l a by (simp add: example_resolved_def)
qed

end
